theory Spec2Isabelle
  imports Main
begin

section \<open>Data model of the location detail page\<close>

text \<open>
  The page component keeps a decision graph (nodes, edges, an id counter), the ids under
  interactive edit, and the bookkeeping of its save pipeline. A node carries the fields
  that are persisted (id, type, position, text, cost, completed) and the presentation flag
  \<open>isEditing\<close>; the root node carries the number, name and picture of the location
  instead (\<open>root_data\<close>). The callback fields attached at load time are not data and are
  left out. Coordinates are JavaScript numbers; they are taken as integers here.
\<close>

record location =
  loc_number :: "int option"
  loc_name :: "string option"
  loc_picture :: "string option"

record node =
  node_id :: string
  node_type :: string
  node_position :: "int \<times> int"
  node_text :: string
  node_cost :: string
  node_completed :: bool
  isEditing :: bool
  root_data :: "location option"

datatype colour = Gold | GoldFaded | Red

record edge_style =
  stroke :: colour
  strokeWidth :: nat
  strokeDasharray :: bool

text \<open>
  Of a note of the location, what the page reads when it colours the edges: the edge it
  is assigned to as a requirement, and whether it is completed.
\<close>

record requirement =
  assigned_edge_id :: "string option"
  note_completed :: bool

record edge =
  edge_id :: string
  source :: string
  target :: string
  edge_text :: string
  edge_completed :: bool
  edge_type :: string
  animated :: bool
  style :: edge_style

text \<open>
  A snapshot is what the remote store and the cache hand over. \<open>graphData\<close> itself, its
  \<open>nodes\<close> and its \<open>edges\<close> may each be missing, which \<open>processGraphData\<close> tests first.
\<close>

record snapshot =
  snap_nodes :: "node list option"
  snap_edges :: "edge list option"

datatype save_status = Saved | Saving | SaveError

text \<open>What a pending \<open>setTimeout\<close> callback does when it fires.\<close>

datatype action =
    SaveCall bool nat  \<comment> \<open>\<open>saveGraph(immediate, retryCount)\<close>\<close>
  | ResumePolling      \<comment> \<open>\<open>pollingPausedRef.current = false\<close>\<close>
  | FitView            \<comment> \<open>\<open>fitView(...)\<close>, which moves the viewport only\<close>

record timer =
  handle :: nat
  due :: int
  act :: action

text \<open>
  The state of the component: the React state (\<open>location\<close>, \<open>notes\<close> as \<open>page_notes\<close>,
  \<open>nodes\<close>,
  \<open>edges\<close>, \<open>nodeCounter\<close>, \<open>editingEdge\<close>, \<open>connectingNodeId\<close>, \<open>saveStatus\<close>,
  \<open>hasUnsavedChanges\<close>), the refs
  (\<open>lastSaveTime\<close>, \<open>saveTimeout\<close>, \<open>isSaving\<close>, \<open>editingNodes\<close>, \<open>editingEdges\<close>,
  \<open>saveQueue\<close>, \<open>hasLoadedGraph\<close>, \<open>pollingPaused\<close>), and the environment the code acts
  on: the timers registered with \<open>setTimeout\<close> and not yet fired, the save requests
  whose remote write has been issued and not yet answered (\<open>inflight\<close>), and the log of
  the times at which a remote write was issued (\<open>writes\<close>).
\<close>

record page =
  location :: "location option"
  page_notes :: "requirement list"
  nodes :: "node list"
  edges :: "edge list"
  nodeCounter :: nat
  editingEdge :: "string option"
  connectingNodeId :: "string option"
  saveStatus :: save_status
  hasUnsavedChanges :: bool
  lastSaveTime :: int
  saveTimeout :: "nat option"
  isSaving :: bool
  editingNodes :: "string set"
  editingEdges :: "string set"
  saveQueue :: "(bool \<times> nat) list"
  hasLoadedGraph :: bool
  pollingPaused :: bool
  timers :: "timer list"
  nextTimer :: nat
  inflight :: "(bool \<times> nat) list"
  writes :: "int list"

section \<open>The durable cache\<close>

text \<open>
  \<open>localStorage\<close> is a map from keys to strings; \<open>readable\<close> is false when access to
  it throws. \<open>JSON.parse\<close> is a parameter: it throws (\<open>None\<close>), yields \<open>null\<close>
  (\<open>JNull\<close>), or yields a value, of which the code reads the property \<open>timestamp\<close> in
  a subtraction: \<open>JValue ts d\<close> holds the number that property coerces to (\<open>None\<close> when
  it is missing or coerces to NaN) and the value itself.
\<close>

record storage =
  items :: "string \<rightharpoonup> string"
  readable :: bool

datatype 'a json = JNull | JValue "int option" 'a

definition getLocalStorageKey :: "string \<Rightarrow> string" where
  "getLocalStorageKey locId = ''graph_'' @ locId"

definition removeItem :: "string \<Rightarrow> storage \<Rightarrow> storage" where
  "removeItem k st = st\<lparr>items := (items st)(k := None)\<rparr>"

definition loadGraphFromLocalStorage ::
  "(string \<Rightarrow> 'a json option) \<Rightarrow> string \<Rightarrow> int \<Rightarrow> storage \<Rightarrow> 'a option \<times> storage" where
  "loadGraphFromLocalStorage parse locationId now st =
     (if \<not> readable st then (None, st)
      else case items st (getLocalStorageKey locationId) of
        None \<Rightarrow> (None, st)
      | Some stored \<Rightarrow>
          if stored = [] then (None, st)
          else (case parse stored of
            None \<Rightarrow> (None, st)
          | Some JNull \<Rightarrow> (None, st)
          | Some (JValue None d) \<Rightarrow> (None, removeItem (getLocalStorageKey locationId) st)
          | Some (JValue (Some t) d) \<Rightarrow>
              if now - t < 24 * 60 * 60 * 1000 then (Some d, st)
              else (None, removeItem (getLocalStorageKey locationId) st)))"

section \<open>Node ids and the id counter\<close>

text \<open>
  \<open>n.id.match(/node-(\d+)/)\<close> finds the leftmost place where \<open>node-\<close> is followed by a
  digit and captures the longest run of digits there; \<open>parseInt\<close> reads the capture in
  base ten. A template literal prints the counter in base ten without leading zeros.

  The numbers of the program are IEEE doubles. Those that occur here hold natural
  numbers, so a double is modelled by the natural number it holds: every natural below
  \<open>2 ^ 53\<close> is a double, a larger one is rounded to the nearest natural with 53
  significant bits, ties to the even mantissa (\<open>round_double\<close>). \<open>parseInt\<close> and \<open>+\<close>
  round their exact result. Overflow to \<open>Infinity\<close> (from \<open>2 ^ 1024\<close> on) and the digits
  a template literal prints for a double above \<open>2 ^ 53\<close> (the shortest that read back as
  the same double, in exponent notation from \<open>10 ^ 21\<close> on) are outside the model; the
  theorems about the counter bound it by \<open>2 ^ 53\<close>.
\<close>

fun bitlen :: "nat \<Rightarrow> nat" where
  "bitlen n = (if n = 0 then 0 else Suc (bitlen (n div 2)))"

declare bitlen.simps [simp del]

definition round_double :: "nat \<Rightarrow> nat" where
  "round_double n =
     (if n < 2 ^ 53 then n
      else
        let e = bitlen n - 53;
            q = n div 2 ^ e;
            r = n mod 2 ^ e;
            half = 2 ^ (e - 1)
        in (if half < r \<or> (r = half \<and> odd q) then q + 1 else q) * 2 ^ e)"

definition js_plus :: "nat \<Rightarrow> nat \<Rightarrow> nat" where
  "js_plus a b = round_double (a + b)"

definition is_digit :: "char \<Rightarrow> bool" where
  "is_digit c = (c \<in> set ''0123456789'')"

definition digit_val :: "char \<Rightarrow> nat" where
  "digit_val c = of_char c - 48"

definition digit_char :: "nat \<Rightarrow> char" where
  "digit_char d = ''0123456789'' ! d"

fun match_node :: "string \<Rightarrow> string option" where
  "match_node [] = None"
| "match_node (c # cs) =
     (if take 5 (c # cs) = ''node-'' \<and> takeWhile is_digit (drop 5 (c # cs)) \<noteq> []
      then Some (takeWhile is_digit (drop 5 (c # cs)))
      else match_node cs)"

definition decimal_value :: "string \<Rightarrow> nat" where
  "decimal_value ds = foldl (\<lambda>a c. 10 * a + digit_val c) 0 ds"

definition parseInt :: "string \<Rightarrow> nat" where
  "parseInt ds = round_double (decimal_value ds)"

fun string_of_nat :: "nat \<Rightarrow> string" where
  "string_of_nat n =
     (if n < 10 then [digit_char n] else string_of_nat (n div 10) @ [digit_char (n mod 10)])"

declare string_of_nat.simps [simp del]

definition node_name :: "nat \<Rightarrow> string" where
  "node_name k = ''node-'' @ string_of_nat k"

definition node_suffix :: "node \<Rightarrow> nat" where
  "node_suffix n = (case match_node (node_id n) of None \<Rightarrow> 0 | Some ds \<Rightarrow> parseInt ds)"

text \<open>\<open>Math.max(...xs)\<close>, called on a list that is not empty.\<close>

definition Math_max :: "nat list \<Rightarrow> nat" where
  "Math_max xs = fold max (tl xs) (hd xs)"

section \<open>Reconciliation\<close>

definition decorate_node :: "node \<Rightarrow> node" where
  "decorate_node n = n\<lparr>isEditing := False\<rparr>"

definition solid_gold :: edge_style where
  "solid_gold = \<lparr>stroke = Gold, strokeWidth = 2, strokeDasharray = False\<rparr>"

definition dashed_faded :: edge_style where
  "dashed_faded = \<lparr>stroke = GoldFaded, strokeWidth = 2, strokeDasharray = True\<rparr>"

definition decorate_edge :: "edge \<Rightarrow> edge" where
  "decorate_edge e =
     e\<lparr>edge_type := ''default'', animated := False,
       style := (if edge_completed e then dashed_faded else solid_gold)\<rparr>"

definition with_root :: "node option \<Rightarrow> node list \<Rightarrow> node list" where
  "with_root rootNode ns = (case rootNode of Some r \<Rightarrow> r # ns | None \<Rightarrow> ns)"

text \<open>The updater passed to \<open>setNodes\<close>, without its two side effects.\<close>

definition mergeNodes :: "string set \<Rightarrow> bool \<Rightarrow> node list \<Rightarrow> node list \<Rightarrow> node list" where
  "mergeNodes editing isFromLocalStorage loadedNodes prev =
     (let rootNode = find (\<lambda>n. node_id n = ''root'') prev in
      if length prev \<le> 1 \<or> isFromLocalStorage then with_root rootNode loadedNodes
      else
        let editingNs = filter (\<lambda>n. node_id n \<noteq> ''root'' \<and> node_id n \<in> editing) prev;
            result = filter (\<lambda>n. node_id n \<notin> editing) loadedNodes @ editingNs
        in with_root rootNode result)"

text \<open>The updater passed to \<open>setEdges\<close>.\<close>

definition mergeEdges :: "string set \<Rightarrow> bool \<Rightarrow> edge list \<Rightarrow> edge list \<Rightarrow> edge list" where
  "mergeEdges editing isFromLocalStorage loadedEdges prev =
     (if length prev = 0 \<or> isFromLocalStorage then loadedEdges
      else
        let editingEs = filter (\<lambda>e. edge_id e \<in> editing) prev
        in filter (\<lambda>e. edge_id e \<notin> editing) loadedEdges @ editingEs)"

definition processGraphData :: "snapshot option \<Rightarrow> bool \<Rightarrow> page \<Rightarrow> page" where
  "processGraphData graphData isFromLocalStorage s =
     (case graphData of
        None \<Rightarrow> s
      | Some g \<Rightarrow>
         (case (snap_nodes g, snap_edges g) of
            (Some ns, Some es) \<Rightarrow>
              let loadedNodes = map decorate_node ns;
                  loadedEdges = map decorate_edge es;
                  wholesale = (length (nodes s) \<le> 1 \<or> isFromLocalStorage)
              in s\<lparr>nodes := mergeNodes (editingNodes s) isFromLocalStorage loadedNodes (nodes s),
                   edges := mergeEdges (editingEdges s) isFromLocalStorage loadedEdges (edges s),
                   nodeCounter :=
                     (if wholesale \<and> loadedNodes \<noteq> []
                      then js_plus (Math_max (map node_suffix loadedNodes)) 1
                      else nodeCounter s),
                   hasLoadedGraph :=
                     (hasLoadedGraph s \<or> (wholesale \<and> loadedNodes \<noteq> []))\<rparr>
          | _ \<Rightarrow> s))"

section \<open>The save pipeline\<close>

text \<open>
  \<open>setTimeout\<close> registers a callback and returns its handle (a positive number, hence
  truthy); \<open>clearTimeout\<close> drops the callback with that handle, if it is still pending.
  \<open>Date.now()\<close> is the argument \<open>now\<close> of every operation, in milliseconds.
\<close>

definition setTimeout :: "action \<Rightarrow> int \<Rightarrow> int \<Rightarrow> page \<Rightarrow> nat \<times> page" where
  "setTimeout a delay now s =
     (nextTimer s,
      s\<lparr>timers := timers s @ [\<lparr>handle = nextTimer s, due = now + delay, act = a\<rparr>],
        nextTimer := Suc (nextTimer s)\<rparr>)"

definition clearTimeout :: "nat \<Rightarrow> page \<Rightarrow> page" where
  "clearTimeout h s = s\<lparr>timers := filter (\<lambda>t. handle t \<noteq> h) (timers s)\<rparr>"

definition clearPending :: "page \<Rightarrow> page" where
  "clearPending s =
     (case saveTimeout s of
        Some h \<Rightarrow> (clearTimeout h s)\<lparr>saveTimeout := None\<rparr>
      | None \<Rightarrow> s)"

definition scheduleSave :: "int \<Rightarrow> int \<Rightarrow> page \<Rightarrow> page" where
  "scheduleSave delay now s =
     (let (h, s') = setTimeout (SaveCall False 0) delay now s in s'\<lparr>saveTimeout := Some h\<rparr>)"

text \<open>
  \<open>saveGraph\<close> up to its \<open>await\<close>: the request is queued, deferred, throttled, or the
  remote write is issued. The body of the request is not modelled; the write is recorded
  in \<open>writes\<close> and the request in \<open>inflight\<close>.
\<close>

definition saveGraph :: "bool \<Rightarrow> nat \<Rightarrow> int \<Rightarrow> page \<Rightarrow> page" where
  "saveGraph immediate retryCount now s =
     (if isSaving s \<and> \<not> immediate
      then s\<lparr>saveQueue := saveQueue s @ [(immediate, retryCount)]\<rparr>
      else
        let s1 = clearPending s in
        if \<not> immediate \<and> (editingNodes s1 \<noteq> {} \<or> editingEdges s1 \<noteq> {})
        then scheduleSave 2000 now s1
        else
          let timeSinceLastSave = now - lastSaveTime s1 in
          if \<not> immediate \<and> timeSinceLastSave < 1000
          then scheduleSave (1000 - timeSinceLastSave) now s1
          else s1\<lparr>isSaving := True, saveStatus := Saving, hasUnsavedChanges := False,
                  pollingPaused := True,
                  inflight := inflight s1 @ [(immediate, retryCount)],
                  writes := writes s1 @ [now]\<rparr>)"

text \<open>
  \<open>saveGraph\<close> after its \<open>await\<close>, for the request \<open>(immediate, retryCount)\<close>: the
  response was a success (\<open>ok\<close>) or the write failed; then the \<open>finally\<close> block.
\<close>

definition saveSucceeded :: "int \<Rightarrow> page \<Rightarrow> page" where
  "saveSucceeded now s =
     (let s1 = s\<lparr>lastSaveTime := now, saveStatus := Saved\<rparr> in
      case saveQueue s1 of
        [] \<Rightarrow> s1
      | (qi, qr) # rest \<Rightarrow> snd (setTimeout (SaveCall qi qr) 100 now (s1\<lparr>saveQueue := rest\<rparr>)))"

definition saveFailed :: "bool \<Rightarrow> nat \<Rightarrow> int \<Rightarrow> page \<Rightarrow> page" where
  "saveFailed immediate retryCount now s =
     (let s1 = s\<lparr>saveStatus := SaveError\<rparr> in
      if immediate \<and> retryCount < 3
      then snd (setTimeout (SaveCall True (retryCount + 1)) (1000 * (int retryCount + 1)) now s1)
      else s1\<lparr>hasUnsavedChanges := True\<rparr>)"

definition saveFinally :: "int \<Rightarrow> page \<Rightarrow> page" where
  "saveFinally now s = snd (setTimeout ResumePolling 1000 now (s\<lparr>isSaving := False\<rparr>))"

definition saveGraph_response :: "bool \<Rightarrow> bool \<Rightarrow> nat \<Rightarrow> int \<Rightarrow> page \<Rightarrow> page" where
  "saveGraph_response ok immediate retryCount now s =
     saveFinally now (if ok then saveSucceeded now s else saveFailed immediate retryCount now s)"

section \<open>Editing\<close>

definition setEditingFlag :: "string \<Rightarrow> bool \<Rightarrow> node list \<Rightarrow> node list" where
  "setEditingFlag nodeId b ns =
     map (\<lambda>n. if node_id n = nodeId then n\<lparr>isEditing := b\<rparr> else n) ns"

definition startEditingNode :: "string \<Rightarrow> page \<Rightarrow> page" where
  "startEditingNode nodeId s =
     (let s1 = clearPending s in
      s1\<lparr>editingNodes := insert nodeId (editingNodes s1),
         nodes := setEditingFlag nodeId True (nodes s1)\<rparr>)"

definition endEditingNode :: "string \<Rightarrow> int \<Rightarrow> page \<Rightarrow> page" where
  "endEditingNode nodeId now s =
     snd (setTimeout (SaveCall False 0) 200 now
       (s\<lparr>editingNodes := editingNodes s - {nodeId},
          nodes := setEditingFlag nodeId False (nodes s)\<rparr>))"

definition onEdgeDoubleClick :: "edge \<Rightarrow> page \<Rightarrow> page" where
  "onEdgeDoubleClick e s =
     s\<lparr>editingEdges := insert (edge_id e) (editingEdges s), editingEdge := Some (edge_id e)\<rparr>"

text \<open>
  The callback that \<open>updateEdgeLabelInternal\<close> hands to the label of an edge, called with
  \<open>null\<close> when the label loses focus: the end of an edge edit.
\<close>

definition endEditingEdge :: "string \<Rightarrow> int \<Rightarrow> page \<Rightarrow> page" where
  "endEditingEdge edgeId now s =
     (saveGraph False 0 now (s\<lparr>editingEdges := editingEdges s - {edgeId}\<rparr>))\<lparr>editingEdge := None\<rparr>"

section \<open>Deleting a node\<close>

text \<open>
  \<open>getDescendants\<close> calls itself for every child and keeps no record of the ids it has
  seen. The first argument bounds the depth of the call stack: the engine throws when the
  stack is exhausted, which is \<open>None\<close>, and the exception leaves \<open>deleteNode\<close> before
  any state is written.
\<close>

fun getDescendants :: "nat \<Rightarrow> string \<Rightarrow> edge list \<Rightarrow> string list option" where
  "getDescendants 0 i currentEdges = None"
| "getDescendants (Suc depth) i currentEdges =
     (let children = map target (filter (\<lambda>e. source e = i) currentEdges) in
      case those (map (\<lambda>childId. getDescendants depth childId currentEdges) children) of
        None \<Rightarrow> None
      | Some dss \<Rightarrow> Some (children @ concat dss))"

definition deleteNode :: "nat \<Rightarrow> bool \<Rightarrow> string \<Rightarrow> int \<Rightarrow> page \<Rightarrow> page option" where
  "deleteNode depth confirmed nodeId now s =
     (if \<not> confirmed then Some s
      else case getDescendants depth nodeId (edges s) of
        None \<Rightarrow> None
      | Some ds \<Rightarrow>
          let toDelete = nodeId # ds in
          Some (snd (setTimeout (SaveCall True 0) 300 now
            (s\<lparr>nodes := filter (\<lambda>n. node_id n \<notin> set toDelete) (nodes s),
               edges := filter (\<lambda>e. source e \<notin> set toDelete \<and> target e \<notin> set toDelete) (edges s),
               hasUnsavedChanges := True\<rparr>))))"

section \<open>Building connections\<close>

definition new_outcome_node :: "string \<Rightarrow> int \<times> int \<Rightarrow> node" where
  "new_outcome_node i pos =
     \<lparr>node_id = i, node_type = ''outcomeNode'', node_position = pos, node_text = [],
      node_cost = [], node_completed = False, isEditing = False, root_data = None\<rparr>"

definition new_edge :: "string \<Rightarrow> string \<Rightarrow> edge" where
  "new_edge src tgt =
     \<lparr>edge_id = ''edge-'' @ src @ ''-'' @ tgt, source = src, target = tgt, edge_text = [],
      edge_completed = False, edge_type = ''default'', animated = False,
      style = solid_gold\<rparr>"

record connection =
  conn_source :: string
  conn_target :: string

definition onConnect :: "connection \<Rightarrow> page \<Rightarrow> page" where
  "onConnect c s =
     (let newNodeId = node_name (nodeCounter s);
          s1 = s\<lparr>nodeCounter := js_plus (nodeCounter s) 1\<rparr>
      in case find (\<lambda>n. node_id n = conn_source c) (nodes s) of
        None \<Rightarrow> s1
      | Some sourceNode \<Rightarrow>
          let childrenCount = length (filter (\<lambda>e. source e = conn_source c) (edges s));
              newNode = new_outcome_node newNodeId
                (fst (node_position sourceNode) + int childrenCount * 220 - 100,
                 snd (node_position sourceNode) + 200)
          in s1\<lparr>nodes := nodes s @ [newNode],
                edges := edges s @ [new_edge (conn_source c) newNodeId]\<rparr>)"

definition onConnectStart :: "string option \<Rightarrow> page \<Rightarrow> page" where
  "onConnectStart nodeId s = s\<lparr>connectingNodeId := nodeId\<rparr>"

text \<open>
  The release of a connection gesture: the type of the event, the touch that ended (if
  any), the pointer coordinates, what the element under the release point is (inside a
  node, a connection handle), and the bounding box of the canvas wrapper (\<open>None\<close> when the
  ref is empty). \<open>project\<close>, from React Flow, maps canvas pixels to graph coordinates.
\<close>

record release =
  ev_type :: string
  changedTouch :: "(int \<times> int) option"
  client :: "int \<times> int"
  targetIsNode :: bool
  targetIsHandle :: bool
  wrapper :: "(int \<times> int) option"

definition onConnectEnd :: "(int \<times> int \<Rightarrow> int \<times> int) \<Rightarrow> release \<Rightarrow> int \<Rightarrow> page \<Rightarrow> page" where
  "onConnectEnd project ev now s =
     (let s0 = s\<lparr>connectingNodeId := None\<rparr> in
      case connectingNodeId s of
        None \<Rightarrow> s0
      | Some sourceNodeId \<Rightarrow>
          if sourceNodeId = [] then s0
          else (case (if ev_type ev = ''touchend'' then changedTouch ev else Some (client ev)) of
            None \<Rightarrow> s0
          | Some (clientX, clientY) \<Rightarrow>
              (case (if \<not> targetIsNode ev \<and> \<not> targetIsHandle ev then wrapper ev else None) of
                None \<Rightarrow> s0
              | Some (boundsLeft, boundsTop) \<Rightarrow>
                  let position = project (clientX - boundsLeft, clientY - boundsTop);
                      newNodeId = node_name (nodeCounter s)
                  in saveGraph False 0 now
                       (s0\<lparr>nodes := nodes s @ [new_outcome_node newNodeId position],
                           edges := edges s @ [new_edge sourceNodeId newNodeId],
                           nodeCounter := js_plus (nodeCounter s) 1\<rparr>))))"

section \<open>Fetching\<close>

text \<open>
  What \<open>fetchData\<close> gets from the server: the location, its notes, and the graph.
\<close>

record fetched =
  f_location :: location
  f_notes :: "requirement list"
  f_graph :: "snapshot option"

text \<open>\<open>location.number || location.name || location.picture\<close>, by JavaScript truthiness.\<close>

definition hasLocationData :: "location \<Rightarrow> bool" where
  "hasLocationData loc =
     ((case loc_number loc of None \<Rightarrow> False | Some n \<Rightarrow> n \<noteq> 0) \<or>
      (case loc_name loc of None \<Rightarrow> False | Some x \<Rightarrow> x \<noteq> []) \<or>
      (case loc_picture loc of None \<Rightarrow> False | Some x \<Rightarrow> x \<noteq> []))"

definition make_root :: "location \<Rightarrow> node option \<Rightarrow> node" where
  "make_root loc existingRoot =
     \<lparr>node_id = ''root'', node_type = ''rootNode'',
      node_position = (case existingRoot of Some r \<Rightarrow> node_position r | None \<Rightarrow> (250, 50)),
      node_text = [], node_cost = [], node_completed = False, isEditing = False,
      root_data = Some loc\<rparr>"

text \<open>
  The effect that depends on the number, name and picture of the location: with any of
  them present it writes the root node (in place of the old one, or in front) and
  schedules \<open>fitView\<close>; with none, or with no location, it empties the graph.
\<close>

definition locationEffect :: "int \<Rightarrow> page \<Rightarrow> page" where
  "locationEffect now s =
     (case location s of
        None \<Rightarrow> s\<lparr>nodes := [], edges := []\<rparr>
      | Some loc \<Rightarrow>
          if hasLocationData loc
          then
            let existingRoot = find (\<lambda>n. node_id n = ''root'') (nodes s);
                rootNode = make_root loc existingRoot
            in snd (setTimeout FitView 300 now
                 (s\<lparr>nodes :=
                     (case existingRoot of
                        Some r \<Rightarrow> map (\<lambda>n. if node_id n = ''root'' then rootNode else n) (nodes s)
                      | None \<Rightarrow> rootNode # nodes s)\<rparr>))
          else s\<lparr>nodes := [], edges := []\<rparr>)"

text \<open>
  The effect that depends on the notes: unless there are none, every edge is recoloured,
  red and animated when a note that is not completed is assigned to it.
\<close>

definition restyle :: "requirement list \<Rightarrow> edge \<Rightarrow> edge" where
  "restyle ns e =
     (case find (\<lambda>n. assigned_edge_id n = Some (edge_id e) \<and> \<not> note_completed n) ns of
        Some assignedNote \<Rightarrow>
          e\<lparr>style := (style e)\<lparr>stroke := Red, strokeWidth := 3\<rparr>, animated := True\<rparr>
      | None \<Rightarrow>
          e\<lparr>style := (style e)\<lparr>stroke := Gold, strokeWidth := 2\<rparr>, animated := False\<rparr>)"

definition notesEffect :: "page \<Rightarrow> page" where
  "notesEffect s =
     (if page_notes s = [] then s else s\<lparr>edges := map (restyle (page_notes s)) (edges s)\<rparr>)"

text \<open>
  The dependencies of the location effect, \<open>location?.number\<close>, \<open>location?.name\<close> and
  \<open>location?.picture\<close>: a value that is missing is \<open>None\<close>, with or without a location.
\<close>

definition location_deps :: "location option \<Rightarrow> int option \<times> string option \<times> string option" where
  "location_deps l =
     (case l of
        None \<Rightarrow> (None, None, None)
      | Some loc \<Rightarrow> (loc_number loc, loc_name loc, loc_picture loc))"

text \<open>
  \<open>fetchData\<close> after its \<open>await\<close>, when the fetch succeeded: the location and the notes
  are stored and the graph is reconciled, in one render; then the effects run, the one
  on the location only when its number, name or picture differs from before, the one on
  the notes every time (the notes of a response are a new array). Writing the cache and
  clearing the loading flag do not touch the state modelled here.
\<close>

definition fetchData_response :: "fetched \<Rightarrow> int \<Rightarrow> page \<Rightarrow> page" where
  "fetchData_response f now s =
     (let s1 = processGraphData (f_graph f) False
                 (s\<lparr>location := Some (f_location f), page_notes := f_notes f\<rparr>);
          s2 = (if location_deps (location s) = location_deps (Some (f_location f)) then s1
                else locationEffect now s1)
      in notesEffect s2)"

section \<open>Runs of the component\<close>

text \<open>
  What happens to the component, one event at a time: a save is requested
  (\<open>triggerSave\<close>, \<open>triggerImmediateSave\<close>), a timer fires (not before it is due), the
  remote store answers the \<open>k\<close>-th write in flight, an edit begins or ends, a fetch
  returns. \<open>fetchData\<close> tests its guards (no save in progress, polling not paused,
  nothing under edit) before it sends the request; the response comes later, whatever
  has begun in between.
\<close>

datatype event =
    Request bool
  | Fire nat
  | Response nat bool
  | BeginEditNode string
  | EndEditNode string
  | BeginEditEdge edge
  | EndEditEdge string
  | Fetched fetched

definition run_action :: "action \<Rightarrow> int \<Rightarrow> page \<Rightarrow> page" where
  "run_action a now s =
     (case a of
        SaveCall i r \<Rightarrow> saveGraph i r now s
      | ResumePolling \<Rightarrow> s\<lparr>pollingPaused := False\<rparr>
      | FitView \<Rightarrow> s)"

definition fire :: "nat \<Rightarrow> int \<Rightarrow> page \<Rightarrow> page" where
  "fire h now s =
     (case find (\<lambda>t. handle t = h) (timers s) of
        None \<Rightarrow> s
      | Some t \<Rightarrow> if now < due t then s else run_action (act t) now (clearTimeout h s))"

definition respond :: "nat \<Rightarrow> bool \<Rightarrow> int \<Rightarrow> page \<Rightarrow> page" where
  "respond k ok now s =
     (if k < length (inflight s)
      then saveGraph_response ok (fst (inflight s ! k)) (snd (inflight s ! k)) now
             (s\<lparr>inflight := take k (inflight s) @ drop (Suc k) (inflight s)\<rparr>)
      else s)"

fun step :: "int \<times> event \<Rightarrow> page \<Rightarrow> page" where
  "step (now, Request immediate) s = saveGraph immediate 0 now s"
| "step (now, Fire h) s = fire h now s"
| "step (now, Response k ok) s = respond k ok now s"
| "step (now, BeginEditNode i) s = startEditingNode i s"
| "step (now, EndEditNode i) s = endEditingNode i now s"
| "step (now, BeginEditEdge e) s = onEdgeDoubleClick e s"
| "step (now, EndEditEdge i) s = endEditingEdge i now s"
| "step (now, Fetched f) s = fetchData_response f now s"

definition run :: "(int \<times> event) list \<Rightarrow> page \<Rightarrow> page" where
  "run evs s = fold step evs s"

text \<open>The component as it is mounted: the initial values of its state and refs.\<close>

definition initial :: page where
  "initial =
     \<lparr>location = None, page_notes = [], nodes = [], edges = [], nodeCounter = 0,
      editingEdge = None, connectingNodeId = None,
      saveStatus = Saved, hasUnsavedChanges = False, lastSaveTime = 0, saveTimeout = None,
      isSaving = False, editingNodes = {}, editingEdges = {}, saveQueue = [],
      hasLoadedGraph = False, pollingPaused = False, timers = [], nextTimer = 1,
      inflight = [], writes = []\<rparr>"

section \<open>Sample data\<close>

definition outcome :: "string \<Rightarrow> string \<Rightarrow> node" where
  "outcome i txt = (new_outcome_node i (0, 0))\<lparr>node_text := txt\<rparr>"

definition camelot :: location where
  "camelot = \<lparr>loc_number = Some 7, loc_name = Some ''Camelot'', loc_picture = None\<rparr>"

definition root_node :: node where
  "root_node = make_root camelot None"

text \<open>A first fetch: three nodes and two edges.\<close>

definition first_fetch :: "snapshot option" where
  "first_fetch =
     Some \<lparr>snap_nodes = Some [outcome ''node-0'' ''a'', outcome ''node-1'' ''b'',
                              outcome ''node-7'' ''c''],
           snap_edges = Some [new_edge ''root'' ''node-0'', new_edge ''node-0'' ''node-7'']\<rparr>"

text \<open>A fetch whose only node has the id \<open>node-9007199254740992\<close>, the suffix \<open>2 ^ 53\<close>.\<close>

definition big_fetch :: "snapshot option" where
  "big_fetch =
     Some \<lparr>snap_nodes = Some [outcome ''node-9007199254740992'' ''z''], snap_edges = Some []\<rparr>"

text \<open>A cache whose only entry, for location 7, does not parse.\<close>

definition broken_cache :: storage where
  "broken_cache = \<lparr>items = [''graph_7'' \<mapsto> ''{nodes''], readable = True\<rparr>"

definition parse_fails :: "string \<Rightarrow> unit json option" where
  "parse_fails stored = None"

text \<open>A cache whose entry for location 7 was written at time 0.\<close>

definition old_cache :: storage where
  "old_cache = \<lparr>items = [''graph_7'' \<mapsto> ''{}''], readable = True\<rparr>"

definition parse_at_0 :: "string \<Rightarrow> unit json option" where
  "parse_at_0 stored = Some (JValue (Some 0) ())"

section \<open>Reachability along edges\<close>

text \<open>
  The edges as a relation from source to target; the walk started at \<open>i\<close> is free of
  cycles when no id reachable from \<open>i\<close> reaches itself. \<open>doomed\<close> is the id to delete
  together with everything reachable from it.
\<close>

definition edge_rel :: "edge list \<Rightarrow> (string \<times> string) set" where
  "edge_rel es = (\<lambda>e. (source e, target e)) ` set es"

definition acyclic_from :: "string \<Rightarrow> edge list \<Rightarrow> bool" where
  "acyclic_from i es =
     (\<forall>v. (i, v) \<in> (edge_rel es)\<^sup>* \<longrightarrow> (v, v) \<notin> (edge_rel es)\<^sup>+)"

text \<open>The targets of the edges leaving \<open>i\<close>, as \<open>getDescendants\<close> computes them.\<close>

definition children_of :: "string \<Rightarrow> edge list \<Rightarrow> string list" where
  "children_of i es = map target (filter (\<lambda>e. source e = i) es)"

text \<open>The edges whose source can be reached from \<open>i\<close>.\<close>

definition reach_rel :: "string \<Rightarrow> edge list \<Rightarrow> (string \<times> string) set" where
  "reach_rel i es = {(u, v). (u, v) \<in> edge_rel es \<and> (i, u) \<in> (edge_rel es)\<^sup>*}"

definition doomed :: "string \<Rightarrow> edge list \<Rightarrow> string set" where
  "doomed nodeId es = insert nodeId ((edge_rel es)\<^sup>+ `` {nodeId})"

text \<open>A small tree under the root, and a page where a node has an edge to itself.\<close>

definition tree_page :: page where
  "tree_page =
     initial\<lparr>nodes := [root_node, outcome ''node-0'' ''a'', outcome ''node-1'' ''b'',
                        outcome ''node-2'' ''c''],
             edges := [new_edge ''root'' ''node-0'', new_edge ''node-0'' ''node-1'',
                        new_edge ''root'' ''node-2'']\<rparr>"

definition looped_page :: page where
  "looped_page =
     initial\<lparr>nodes := [root_node, outcome ''node-1'' ''b''],
             edges := [new_edge ''root'' ''node-1'', new_edge ''node-1'' ''node-1'']\<rparr>"

section \<open>The edge collection under the builder\<close>

text \<open>
  The ordered pair an edge stands for; the property that no pair occurs twice; the
  property that no edge points at an id the counter has yet to hand out; the builder's
  operations as one function; and an id of the form the builder derives.
\<close>

definition endpoints :: "edge \<Rightarrow> string \<times> string" where
  "endpoints e = (source e, target e)"



datatype gesture =
    Connect connection
  | ConnectStart "string option"
  | ConnectEnd release int

fun builder :: "(int \<times> int \<Rightarrow> int \<times> int) \<Rightarrow> gesture \<Rightarrow> page \<Rightarrow> page" where
  "builder project (Connect c) s = onConnect c s"
| "builder project (ConnectStart i) s = onConnectStart i s"
| "builder project (ConnectEnd ev now) s = onConnectEnd project ev now s"


text \<open>
  The pointer coordinates \<open>onConnectEnd\<close> reads from the event, and sample gestures and
  pages.
\<close>

definition release_point :: "release \<Rightarrow> (int \<times> int) option" where
  "release_point ev = (if ev_type ev = ''touchend'' then changedTouch ev else Some (client ev))"

definition pane_release :: release where
  "pane_release =
     \<lparr>ev_type = ''mouseup'', changedTouch = None, client = (300, 400), targetIsNode = False,
      targetIsHandle = False, wrapper = Some (20, 10)\<rparr>"

definition handle_release :: release where
  "handle_release = pane_release\<lparr>targetIsHandle := True\<rparr>"


definition gesture_page :: page where
  "gesture_page =
     initial\<lparr>nodes := [root_node, outcome ''node-0'' ''a'', outcome ''node-1'' ''b'',
                        outcome ''node-2'' ''c''],
             edges := [new_edge ''root'' ''node-0'', new_edge ''node-0'' ''node-1'',
                        new_edge ''root'' ''node-2''],
             nodeCounter := 3, connectingNodeId := Some ''root''\<rparr>"




definition pending_page :: page where
  "pending_page = saveGraph False 0 500 initial"

section \<open>The version of an element held in the store\<close>

text \<open>
  The nodes, or edges, of the store with a given id, in their order, and what an edge holds
  apart from its stroke colour, stroke width and animation, which the effect on the notes
  derives from the requirement notes. Then a page of location Camelot with one outcome
  node and one labelled edge; a response of the server for Camelot that has other texts
  for both and an open requirement on the edge; and the same response for a location
  without number, name and picture.
\<close>

definition held_nodes :: "string \<Rightarrow> page \<Rightarrow> node list" where
  "held_nodes i s = filter (\<lambda>n. node_id n = i) (nodes s)"

definition held_edges :: "string \<Rightarrow> page \<Rightarrow> edge list" where
  "held_edges i s = filter (\<lambda>e. edge_id e = i) (edges s)"

definition edge_content :: "edge \<Rightarrow> string \<times> string \<times> string \<times> string \<times> bool \<times> string \<times> bool" where
  "edge_content e =
     (edge_id e, source e, target e, edge_text e, edge_completed e, edge_type e,
      strokeDasharray (style e))"

definition editing_page :: page where
  "editing_page =
     initial\<lparr>location := Some camelot,
             nodes := [root_node, outcome ''node-0'' ''mine''],
             edges := [(new_edge ''root'' ''node-0'')\<lparr>edge_text := ''go''\<rparr>],
             nodeCounter := 1\<rparr>"

definition rival_snapshot :: "snapshot option" where
  "rival_snapshot =
     Some \<lparr>snap_nodes = Some [outcome ''node-0'' ''theirs''],
           snap_edges = Some [(new_edge ''root'' ''node-0'')\<lparr>edge_text := ''stay''\<rparr>]\<rparr>"

definition rival_fetch :: fetched where
  "rival_fetch =
     \<lparr>f_location = camelot,
      f_notes = [\<lparr>assigned_edge_id = Some ''edge-root-node-0'', note_completed = False\<rparr>],
      f_graph = rival_snapshot\<rparr>"

definition cleared_fetch :: fetched where
  "cleared_fetch =
     rival_fetch\<lparr>f_location := \<lparr>loc_number = None, loc_name = None, loc_picture = None\<rparr>\<rparr>"

definition lone_page :: page where
  "lone_page = editing_page\<lparr>nodes := [outcome ''node-0'' ''mine'']\<rparr>"

section \<open>A page with unsaved changes\<close>

definition unsaved_page :: page where
  "unsaved_page = initial\<lparr>hasUnsavedChanges := True\<rparr>"

section \<open>Runs without immediate saves and without failures\<close>

text \<open>
  The events of a run in which every request is non-immediate and every write succeeds;
  write times at least 1000 ms apart; and what such a run keeps true at time \<open>now\<close>:
  nothing queued or scheduled is an immediate save, no write lies in the future, when
  no save is in flight every write lies at or before the last successful save, and the
  writes are spaced.
\<close>

definition throttled_event :: "event \<Rightarrow> bool" where
  "throttled_event ev =
     (case ev of Request immediate \<Rightarrow> \<not> immediate | Response k ok \<Rightarrow> ok | _ \<Rightarrow> True)"

definition spaced :: "int list \<Rightarrow> bool" where
  "spaced ws = sorted_wrt (\<lambda>a b. a + 1000 \<le> b) ws"

definition throttle_inv :: "int \<Rightarrow> page \<Rightarrow> bool" where
  "throttle_inv now s =
     ((\<forall>q \<in> set (saveQueue s). \<not> fst q) \<and>
      (\<forall>t \<in> set (timers s). \<forall>rc. act t \<noteq> SaveCall True rc) \<and>
      (\<forall>w \<in> set (writes s). w \<le> now) \<and>
      (\<not> isSaving s \<longrightarrow> (\<forall>w \<in> set (writes s). w \<le> lastSaveTime s)) \<and>
      spaced (writes s))"


section \<open>Decimal numerals, doubles and the id pattern\<close>

lemma digit_cases:
  "d < 10 \<Longrightarrow>
   d = 0 \<or> d = 1 \<or> d = 2 \<or> d = 3 \<or> d = 4 \<or> d = 5 \<or> d = 6 \<or> d = 7 \<or> d = 8 \<or> d = (9::nat)"
  by arith

lemma is_digit_digit_char: "d < 10 \<Longrightarrow> is_digit (digit_char d)"
  using digit_cases[of d] by (auto simp: is_digit_def digit_char_def)

lemma digit_val_digit_char: "d < 10 \<Longrightarrow> digit_val (digit_char d) = d"
  using digit_cases[of d] by (auto simp: digit_val_def digit_char_def)

lemma string_of_nat_digits:
  "string_of_nat k \<noteq> [] \<and> (\<forall>c \<in> set (string_of_nat k). is_digit c)"
proof (induction k rule: string_of_nat.induct)
  case (1 n)
  then show ?case
    by (cases "n < 10") (simp_all add: string_of_nat.simps[of n] is_digit_digit_char)
qed

lemma decimal_value_snoc: "decimal_value (ds @ [c]) = 10 * decimal_value ds + digit_val c"
  by (simp add: decimal_value_def)

lemma decimal_value_string_of_nat: "decimal_value (string_of_nat k) = k"
proof (induction k rule: string_of_nat.induct)
  case (1 n)
  show ?case
  proof (cases "n < 10")
    case True
    then show ?thesis
      by (simp add: string_of_nat.simps[of n] decimal_value_def digit_val_digit_char)
  next
    case False
    with 1 show ?thesis
      by (simp add: string_of_nat.simps[of n] decimal_value_snoc digit_val_digit_char)
  qed
qed

lemma bitlen_0: "bitlen 0 = 0"
  by (simp add: bitlen.simps)

lemma bitlen_pos: "n \<noteq> 0 \<Longrightarrow> bitlen n = Suc (bitlen (n div 2))"
  by (subst bitlen.simps) simp

lemma bitlen_pow2: "bitlen (2 ^ k) = Suc k"
proof (induction k)
  case 0
  show ?case using bitlen_pos[of 1] by (simp add: bitlen_0)
next
  case (Suc k)
  have "bitlen (2 ^ Suc k) = Suc (bitlen (2 ^ Suc k div 2))" by (rule bitlen_pos) simp
  with Suc show ?case by simp
qed

lemma round_double_exact: "n \<le> 2 ^ 53 \<Longrightarrow> round_double n = n"
proof (cases "n < 2 ^ 53")
  case True
  then show ?thesis by (simp add: round_double_def)
next
  case False
  moreover assume "n \<le> 2 ^ 53"
  ultimately have n: "n = 2 ^ 53" by simp
  have "bitlen ((2::nat) ^ 53) = 54" using bitlen_pow2[of 53] by simp
  then show ?thesis unfolding n by (simp add: round_double_def Let_def)
qed

lemma round_double_next: "round_double (2 ^ 53 + 1) = 2 ^ 53"
proof -
  have "bitlen (2 ^ 53 + 1) = Suc (bitlen ((2 ^ 53 + 1) div 2))" by (rule bitlen_pos) simp
  moreover have "((2::nat) ^ 53 + 1) div 2 = 2 ^ 52" by simp
  moreover have "bitlen ((2::nat) ^ 52) = 53" using bitlen_pow2[of 52] by simp
  ultimately have "bitlen (2 ^ 53 + 1) = 54" by simp
  then show ?thesis by (simp add: round_double_def Let_def)
qed

lemma js_plus_one: "c < 2 ^ 53 \<Longrightarrow> js_plus c 1 = Suc c"
  by (simp add: js_plus_def round_double_exact)

lemma js_plus_one_stuck: "js_plus (2 ^ 53) 1 = 2 ^ 53"
  using round_double_next by (simp add: js_plus_def)

lemma js_plus_Suc0: "c < 2 ^ 53 \<Longrightarrow> js_plus c (Suc 0) = Suc c"
  using js_plus_one[of c] by simp

lemma js_plus_Suc0_stuck: "js_plus (2 ^ 53) (Suc 0) = 2 ^ 53"
  using js_plus_one_stuck by simp

lemma counters_ahead:
  "c \<le> 2 ^ 53 \<Longrightarrow>
   c \<le> ((\<lambda>c. js_plus c 1) ^^ j) c \<and> ((\<lambda>c. js_plus c 1) ^^ j) c \<le> 2 ^ 53"
proof (induction j)
  case 0
  then show ?case by simp
next
  case (Suc j)
  let ?k = "((\<lambda>c. js_plus c 1) ^^ j) c"
  from Suc have k: "c \<le> ?k" "?k \<le> 2 ^ 53" by auto
  show ?case
  proof (cases "?k < 2 ^ 53")
    case True
    with k show ?thesis by (simp add: js_plus_Suc0)
  next
    case False
    with k have "?k = 2 ^ 53" by simp
    with k Suc.prems show ?thesis by (simp add: js_plus_Suc0_stuck[simplified])
  qed
qed

lemma match_node_digits:
  assumes "ds \<noteq> []" and "\<forall>c \<in> set ds. is_digit c"
  shows "match_node (''node-'' @ ds) = Some ds"
  using assms by (cases ds) auto

lemma match_node_name: "match_node (node_name k) = Some (string_of_nat k)"
  unfolding node_name_def using string_of_nat_digits[of k] by (intro match_node_digits) auto

lemma node_suffix_name: "node_id n = node_name k \<Longrightarrow> node_suffix n = round_double k"
  by (simp add: node_suffix_def match_node_name parseInt_def decimal_value_string_of_nat)


lemma node_name_not_root: "node_name k \<noteq> ''root''"
  by (simp add: node_name_def)

lemma Math_max_Max: "xs \<noteq> [] \<Longrightarrow> Math_max xs = Max (set xs)"
  by (cases xs) (simp_all add: Math_max_def Max.set_eq_fold[symmetric])

lemma node_suffix_decorate [simp]: "node_suffix (decorate_node n) = node_suffix n"
  by (simp add: node_suffix_def decorate_node_def)

lemma node_id_decorate [simp]: "node_id (decorate_node n) = node_id n"
  by (simp add: decorate_node_def)

lemma find_root_id: "find (\<lambda>n. node_id n = ''root'') prev = Some r \<Longrightarrow> node_id r = ''root''"
  by (auto simp: find_Some_iff)

section \<open>The id counter after a wholesale load\<close>

lemma wholesale_nodes:
  "length prev \<le> 1 \<or> fromLS \<Longrightarrow>
   mergeNodes editing fromLS loaded prev =
     with_root (find (\<lambda>n. node_id n = ''root'') prev) loaded"
  by (auto simp: mergeNodes_def Let_def)

lemma fresh_above_suffixes:
  assumes "n \<in> set ns" and "Max (node_suffix ` set ns) < k" and "k \<le> 2 ^ 53"
  shows "node_id n \<noteq> node_name k"
proof
  assume "node_id n = node_name k"
  then have "node_suffix n = round_double k" by (rule node_suffix_name)
  with assms(3) have "node_suffix n = k" by (simp add: round_double_exact)
  moreover from assms(1) have "node_suffix n \<le> Max (node_suffix ` set ns)" by simp
  ultimately show False using assms(2) by simp
qed

text \<open>
  Claim C5, as the code has it. After a wholesale load of a snapshot with at least one node,
  all of whose numeric suffixes are below \<open>2 ^ 53\<close>, the counter is the greatest suffix
  plus 1, and no id that the counter generates from then on, however often it is
  incremented, is the id of a node in the store. An id without the pattern
  \<open>node-<n>\<close> has the suffix 0.
\<close>

theorem counter_after_wholesale_load:
  assumes "length (nodes s) \<le> 1 \<or> isFromLocalStorage"
    and "ns \<noteq> []"
    and "\<forall>n \<in> set ns. node_suffix n < 2 ^ 53"
    and "s' = processGraphData (Some \<lparr>snap_nodes = Some ns, snap_edges = Some es\<rparr>)
                isFromLocalStorage s"
  shows "nodeCounter s' = Max (node_suffix ` set ns) + 1 \<and>
         (\<forall>n \<in> set (nodes s'). \<forall>j.
            node_id n \<noteq> node_name (((\<lambda>c. js_plus c 1) ^^ j) (nodeCounter s'))) \<and>
         (\<forall>n. match_node (node_id n) = None \<longrightarrow> node_suffix n = 0)"
proof -
  let ?M = "Max (node_suffix ` set ns)"
  from assms(2,3) have M: "?M < 2 ^ 53" by simp
  have "nodeCounter s' = js_plus ?M 1"
    using assms(1,2,4) by (auto simp: processGraphData_def Let_def Math_max_Max image_image)
  with M have counter: "nodeCounter s' = ?M + 1" by (simp add: js_plus_Suc0)
  with M have le: "nodeCounter s' \<le> 2 ^ 53" by simp
  have stored: "nodes s' =
      with_root (find (\<lambda>n. node_id n = ''root'') (nodes s)) (map decorate_node ns)"
    using assms(1,4) by (simp add: processGraphData_def Let_def wholesale_nodes)
  have "node_id n \<noteq> node_name (((\<lambda>c. js_plus c 1) ^^ j) (nodeCounter s'))"
    if "n \<in> set (nodes s')" for n j
  proof (cases "n \<in> set (map decorate_node ns)")
    case True
    then obtain m where m: "m \<in> set ns" "n = decorate_node m" by auto
    from counters_ahead[OF le, of j] counter
    have "?M < ((\<lambda>c. js_plus c 1) ^^ j) (nodeCounter s')"
      and "((\<lambda>c. js_plus c 1) ^^ j) (nodeCounter s') \<le> 2 ^ 53" by simp_all
    with m show ?thesis by (simp add: fresh_above_suffixes)
  next
    case False
    with that stored have "find (\<lambda>n. node_id n = ''root'') (nodes s) = Some n"
      by (auto simp: with_root_def split: option.splits)
    then show ?thesis using find_root_id node_name_not_root by metis
  qed
  moreover have "node_suffix n = 0" if "match_node (node_id n) = None" for n
    using that by (simp add: node_suffix_def)
  ultimately show ?thesis using counter by blast
qed

theorem counter_after_wholesale_load_witness:
  "length (nodes initial) \<le> 1 \<and>
   nodeCounter (processGraphData first_fetch False initial) = 8 \<and>
   node_name 8 \<notin> node_id ` set (nodes (processGraphData first_fetch False initial)) \<and>
   node_name 9 \<notin> node_id ` set (nodes (processGraphData first_fetch False initial))"
proof -
  let ?ns = "[outcome ''node-0'' ''a'', outcome ''node-1'' ''b'', outcome ''node-7'' ''c'']"
  let ?es = "[new_edge ''root'' ''node-0'', new_edge ''node-0'' ''node-7'']"
  let ?s' = "processGraphData first_fetch False initial"
  have empty: "length (nodes initial) \<le> 1 \<or> False" by (simp add: initial_def)
  have each: "map node_suffix ?ns = [0, 1, 7]"
    by (simp add: node_suffix_def outcome_def new_outcome_node_def parseInt_def
        decimal_value_def digit_val_def is_digit_def round_double_def)
  have bound: "\<forall>n \<in> set ?ns. node_suffix n < 2 ^ 53" using each by simp
  have suffixes: "Max (node_suffix ` set ?ns) = 7" using each by simp
  note load = counter_after_wholesale_load[OF empty _ bound, of _ ?es, OF _ refl]
  have counter: "nodeCounter ?s' = 8"
    using load suffixes by (simp add: first_fetch_def)
  have fresh: "\<forall>n \<in> set (nodes ?s'). \<forall>j. node_id n \<noteq> node_name (((\<lambda>c. js_plus c 1) ^^ j) 8)"
    using load unfolding counter[unfolded first_fetch_def] first_fetch_def by simp
  have next1: "((\<lambda>c. js_plus c 1) ^^ 1) 8 = 9" by (simp add: js_plus_def round_double_def)
  have "node_name (((\<lambda>c. js_plus c 1) ^^ j) 8) \<notin> node_id ` set (nodes ?s')" for j
  proof
    assume "node_name (((\<lambda>c. js_plus c 1) ^^ j) 8) \<in> node_id ` set (nodes ?s')"
    then obtain n where "n \<in> set (nodes ?s')"
      and "node_id n = node_name (((\<lambda>c. js_plus c 1) ^^ j) 8)" by auto
    with fresh show False by auto
  qed
  from this[of 0] this[of 1] counter empty show ?thesis unfolding next1 by simp
qed

text \<open>
  The claim as written covers every snapshot. Numbers are doubles: a node loaded with the
  id \<open>node-9007199254740992\<close> has the suffix \<open>2 ^ 53\<close>, the sum \<open>2 ^ 53 + 1\<close> rounds
  to \<open>2 ^ 53\<close>, and the id generated next is the id of the loaded node.
\<close>

theorem counter_stuck_at_2_53:
  "map node_id (nodes (processGraphData big_fetch False initial)) = [''node-9007199254740992''] \<and>
   nodeCounter (processGraphData big_fetch False initial) = 9007199254740992 \<and>
   node_name (nodeCounter (processGraphData big_fetch False initial)) = ''node-9007199254740992''"
proof -
  have suffix: "node_suffix (outcome ''node-9007199254740992'' ''z'') = 2 ^ 53"
    by (simp add: node_suffix_def outcome_def new_outcome_node_def parseInt_def
        decimal_value_def digit_val_def is_digit_def round_double_exact)
  have counter: "nodeCounter (processGraphData big_fetch False initial) = 2 ^ 53"
    by (simp add: processGraphData_def big_fetch_def initial_def Let_def Math_max_def suffix
        js_plus_Suc0_stuck[simplified])
  have name: "node_name (2 ^ 53) = ''node-9007199254740992''"
    by (simp add: node_name_def string_of_nat.simps digit_char_def)
  have stored: "map node_id (nodes (processGraphData big_fetch False initial))
      = [''node-9007199254740992'']"
    by (simp add: processGraphData_def big_fetch_def initial_def Let_def mergeNodes_def
        with_root_def outcome_def new_outcome_node_def)
  show ?thesis unfolding counter using name stored by simp
qed

section \<open>Reading the cache\<close>

text \<open>
  Claim C9, as the code has it. A read never raises: it returns no data when the storage
  cannot be accessed, when the entry does not parse or parses to \<open>null\<close>, when it has no
  usable timestamp, and when it is 24 hours old or older. The entry is removed in the
  last two cases only; an entry that does not parse stays in the cache.
\<close>

theorem cache_read_miss:
  "(\<not> readable st \<longrightarrow> loadGraphFromLocalStorage parse loc now st = (None, st)) \<and>
   (readable st \<and> items st (getLocalStorageKey loc) = Some stored \<and> stored \<noteq> [] \<longrightarrow>
      (parse stored = None \<or> parse stored = Some JNull \<longrightarrow>
         loadGraphFromLocalStorage parse loc now st = (None, st)) \<and>
      (parse stored = Some (JValue None d) \<longrightarrow>
         loadGraphFromLocalStorage parse loc now st =
           (None, removeItem (getLocalStorageKey loc) st)) \<and>
      (parse stored = Some (JValue (Some t) d) \<and> 24 * 60 * 60 * 1000 \<le> now - t \<longrightarrow>
         loadGraphFromLocalStorage parse loc now st =
           (None, removeItem (getLocalStorageKey loc) st) \<and>
         items (snd (loadGraphFromLocalStorage parse loc now st)) (getLocalStorageKey loc) = None))"
  by (auto simp: loadGraphFromLocalStorage_def removeItem_def)

theorem cache_read_miss_witness:
  "loadGraphFromLocalStorage parse_at_0 ''7'' 86400000 old_cache =
     (None, \<lparr>items = Map.empty, readable = True\<rparr>) \<and>
   loadGraphFromLocalStorage parse_fails ''7'' 86400000 broken_cache = (None, broken_cache) \<and>
   loadGraphFromLocalStorage parse_at_0 ''7'' 86400000 (old_cache\<lparr>readable := False\<rparr>) =
     (None, old_cache\<lparr>readable := False\<rparr>)"
  using cache_read_miss[of old_cache parse_at_0 "''7''" 86400000 "''{}''" "()" 0]
    cache_read_miss[of broken_cache parse_fails "''7''" 86400000 "''{nodes''" "()" 0]
    cache_read_miss[of "old_cache\<lparr>readable := False\<rparr>" parse_at_0 "''7''" 86400000 "''{}''" "()" 0]
  by (simp add: old_cache_def broken_cache_def parse_at_0_def parse_fails_def
      getLocalStorageKey_def removeItem_def)

text \<open>
  The claim as written says that an entry that does not parse is discarded. It is not:
  after the read the entry is still in the cache.
\<close>

theorem malformed_entry_kept:
  "fst (loadGraphFromLocalStorage parse_fails ''7'' 0 broken_cache) = None \<and>
   items (snd (loadGraphFromLocalStorage parse_fails ''7'' 0 broken_cache)) ''graph_7''
     = Some ''{nodes''"
  by (simp add: loadGraphFromLocalStorage_def broken_cache_def parse_fails_def
      getLocalStorageKey_def)

section \<open>The descendant walk\<close>

lemma set_children_of: "set (children_of i es) = edge_rel es `` {i}"
  by (auto simp: children_of_def edge_rel_def)

lemma getDescendants_Suc:
  "getDescendants (Suc d) i es =
     (case those (map (\<lambda>c. getDescendants d c es) (children_of i es)) of
        None \<Rightarrow> None
      | Some dss \<Rightarrow> Some (children_of i es @ concat dss))"
  unfolding children_of_def by (simp add: Let_def)

lemma those_None_iff: "those xs = None \<longleftrightarrow> None \<in> set xs"
  by (induction xs) (auto split: option.splits)

lemma those_Some_iff: "those xs = Some ys \<longleftrightarrow> xs = map Some ys"
proof (induction xs arbitrary: ys)
  case Nil
  then show ?case by auto
next
  case (Cons x xs)
  then show ?case by (cases x; cases ys) (auto split: option.splits)
qed

lemma getDescendants_mono_Suc:
  "getDescendants d i es = Some ds \<Longrightarrow> getDescendants (Suc d) i es = Some ds"
proof (induction d arbitrary: i ds)
  case 0
  then show ?case by simp
next
  case (Suc d)
  from Suc.prems obtain dss where
    dss: "those (map (\<lambda>c. getDescendants d c es) (children_of i es)) = Some dss"
    and ds: "ds = children_of i es @ concat dss"
    by (auto simp only: getDescendants_Suc split: option.splits)
  from dss have all: "map (\<lambda>c. getDescendants d c es) (children_of i es) = map Some dss"
    by (simp add: those_Some_iff)
  have "map (\<lambda>c. getDescendants (Suc d) c es) (children_of i es) = map Some dss"
  proof (rule nth_equalityI)
    show "length (map (\<lambda>c. getDescendants (Suc d) c es) (children_of i es)) = length (map Some dss)"
      using arg_cong[OF all, of length] by simp
  next
    fix k assume k: "k < length (map (\<lambda>c. getDescendants (Suc d) c es) (children_of i es))"
    then have "getDescendants d (children_of i es ! k) es = Some (dss ! k)"
      using arg_cong[OF all, of "\<lambda>xs. xs ! k"] arg_cong[OF all, of length] by simp
    then have "getDescendants (Suc d) (children_of i es ! k) es = Some (dss ! k)"
      by (rule Suc.IH)
    then show "map (\<lambda>c. getDescendants (Suc d) c es) (children_of i es) ! k = map Some dss ! k"
      using k arg_cong[OF all, of length] by simp
  qed
  then have "those (map (\<lambda>c. getDescendants (Suc d) c es) (children_of i es)) = Some dss"
    by (simp add: those_Some_iff)
  then show ?case by (simp only: getDescendants_Suc[of "Suc d"] ds option.case)
qed

lemma getDescendants_mono_add:
  "getDescendants d i es = Some ds \<Longrightarrow> getDescendants (d + k) i es = Some ds"
proof (induction k)
  case 0
  then show ?case by simp
next
  case (Suc k)
  then have "getDescendants (Suc (d + k)) i es = Some ds" by (intro getDescendants_mono_Suc)
  then show ?case by (simp only: add_Suc_right)
qed

lemma getDescendants_mono:
  assumes "getDescendants d i es = Some ds" and "d \<le> d'"
  shows "getDescendants d' i es = Some ds"
  using getDescendants_mono_add[OF assms(1), of "d' - d"] assms(2) by (simp del: getDescendants.simps)

lemma cycle_child:
  assumes "(i, v) \<in> R\<^sup>*" and "(v, v) \<in> R\<^sup>+"
  shows "\<exists>c. (i, c) \<in> R \<and> (c, v) \<in> R\<^sup>*"
  using assms by (metis converse_rtranclE tranclD)

lemma getDescendants_cycle:
  "(i, v) \<in> (edge_rel es)\<^sup>* \<Longrightarrow> (v, v) \<in> (edge_rel es)\<^sup>+ \<Longrightarrow> getDescendants d i es = None"
proof (induction d arbitrary: i)
  case 0
  then show ?case by simp
next
  case (Suc d)
  from cycle_child[OF Suc.prems] obtain c
    where c: "(i, c) \<in> edge_rel es" "(c, v) \<in> (edge_rel es)\<^sup>*" by blast
  then have "getDescendants d c es = None" using Suc.IH Suc.prems(2) by blast
  moreover from c(1) have "c \<in> set (children_of i es)" by (simp add: set_children_of)
  ultimately have "None \<in> set (map (\<lambda>c. getDescendants d c es) (children_of i es))"
    by force
  then have "those (map (\<lambda>c. getDescendants d c es) (children_of i es)) = None"
    by (simp only: those_None_iff)
  then show ?case by (simp only: getDescendants_Suc option.case)
qed

lemma getDescendants_acyclic:
  "getDescendants d i es = Some ds \<Longrightarrow> acyclic_from i es"
  unfolding acyclic_from_def using getDescendants_cycle by fastforce

lemma common_depth:
  assumes "\<forall>c \<in> set cs. \<exists>d ds. getDescendants d c es = Some ds"
  shows "\<exists>D. \<forall>c \<in> set cs. \<exists>ds. getDescendants D c es = Some ds"
  using assms
proof (induction cs)
  case Nil
  then show ?case by simp
next
  case (Cons c cs)
  then obtain D where D: "\<forall>c \<in> set cs. \<exists>ds. getDescendants D c es = Some ds" by auto
  from Cons.prems obtain d ds where d: "getDescendants d c es = Some ds" by auto
  have "\<exists>ds. getDescendants (max d D) x es = Some ds" if "x \<in> set (c # cs)" for x
  proof (cases "x = c")
    case True
    with getDescendants_mono[OF d, of "max d D"] show ?thesis by auto
  next
    case False
    with that D obtain ds' where "getDescendants D x es = Some ds'" by auto
    from getDescendants_mono[OF this, of "max d D"] show ?thesis by auto
  qed
  then show ?case by blast
qed

lemma getDescendants_children:
  assumes "\<forall>c \<in> set (children_of i es). \<exists>ds. getDescendants D c es = Some ds"
  shows "\<exists>ds. getDescendants (Suc D) i es = Some ds"
proof -
  have "None \<notin> set (map (\<lambda>c. getDescendants D c es) (children_of i es))"
    using assms by auto
  then have "those (map (\<lambda>c. getDescendants D c es) (children_of i es)) \<noteq> None"
    by (simp only: those_None_iff not_False_eq_True)
  then show ?thesis by (auto simp only: getDescendants_Suc split: option.splits)
qed

lemma finite_edge_rel: "finite (edge_rel es)"
  by (simp add: edge_rel_def)

lemma reach_rel_trancl:
  "(x, y) \<in> (reach_rel i es)\<^sup>+ \<Longrightarrow> (x, y) \<in> (edge_rel es)\<^sup>+ \<and> (i, x) \<in> (edge_rel es)\<^sup>*"
  by (induction rule: trancl_induct) (auto simp: reach_rel_def intro: trancl_into_trancl)

lemma wf_reach_rel:
  assumes "acyclic_from i es"
  shows "wf ((reach_rel i es)\<inverse>)"
proof (rule finite_acyclic_wf_converse)
  have "reach_rel i es \<subseteq> edge_rel es" by (auto simp: reach_rel_def)
  then show "finite (reach_rel i es)" using finite_edge_rel by (rule finite_subset)
  show "acyclic (reach_rel i es)"
    unfolding acyclic_def using assms reach_rel_trancl by (fastforce simp: acyclic_from_def)
qed

lemma getDescendants_returns:
  assumes "acyclic_from i es"
  shows "\<exists>d ds. getDescendants d i es = Some ds"
proof -
  have "(i, v) \<in> (edge_rel es)\<^sup>* \<longrightarrow> (\<exists>d ds. getDescendants d v es = Some ds)" for v
  proof (induction v rule: wf_induct_rule[OF wf_reach_rel[OF assms]])
    case (1 v)
    show ?case
    proof
      assume reach: "(i, v) \<in> (edge_rel es)\<^sup>*"
      have "\<exists>d ds. getDescendants d c es = Some ds" if "c \<in> set (children_of v es)" for c
      proof -
        from that have e: "(v, c) \<in> edge_rel es" by (simp add: set_children_of)
        with reach have "(c, v) \<in> (reach_rel i es)\<inverse>" by (simp add: reach_rel_def)
        moreover from reach e have "(i, c) \<in> (edge_rel es)\<^sup>*" by (rule rtrancl_into_rtrancl)
        ultimately show ?thesis using 1 by blast
      qed
      then obtain D where "\<forall>c \<in> set (children_of v es). \<exists>ds. getDescendants D c es = Some ds"
        using common_depth[of "children_of v es" es] by blast
      then show "\<exists>d ds. getDescendants d v es = Some ds"
        using getDescendants_children by blast
    qed
  qed
  then show ?thesis by blast
qed

lemma trancl_first_step:
  "(i, v) \<in> R\<^sup>+ \<longleftrightarrow> (\<exists>c. (i, c) \<in> R \<and> (c = v \<or> (c, v) \<in> R\<^sup>+))"
  by (metis converse_tranclE r_into_trancl' trancl_into_trancl2)

lemma set_getDescendants:
  "getDescendants d i es = Some ds \<Longrightarrow> set ds = (edge_rel es)\<^sup>+ `` {i}"
proof (induction d arbitrary: i ds)
  case 0
  then show ?case by simp
next
  case (Suc d)
  from Suc.prems obtain dss where
    dss: "those (map (\<lambda>c. getDescendants d c es) (children_of i es)) = Some dss"
    and ds: "ds = children_of i es @ concat dss"
    by (auto simp only: getDescendants_Suc split: option.splits)
  from dss have all: "map (\<lambda>c. getDescendants d c es) (children_of i es) = map Some dss"
    by (simp add: those_Some_iff)
  from all have len: "length (children_of i es) = length dss"
    by (rule map_eq_imp_length_eq)
  have each: "set (dss ! k) = (edge_rel es)\<^sup>+ `` {children_of i es ! k}"
    if "k < length dss" for k
  proof -
    from that len have "getDescendants d (children_of i es ! k) es = Some (dss ! k)"
      using arg_cong[OF all, of "\<lambda>xs. xs ! k"] by simp
    then show ?thesis by (rule Suc.IH)
  qed
  have "set (concat dss) = (\<Union>c \<in> set (children_of i es). (edge_rel es)\<^sup>+ `` {c})"
  proof (intro set_eqI iffI)
    fix v assume "v \<in> set (concat dss)"
    then obtain xs where "xs \<in> set dss" and v: "v \<in> set xs" by auto
    then obtain k where "k < length dss" "dss ! k = xs" by (auto simp only: in_set_conv_nth)
    with v have "k < length dss" "v \<in> set (dss ! k)" by simp_all
    with each len show "v \<in> (\<Union>c \<in> set (children_of i es). (edge_rel es)\<^sup>+ `` {c})"
      by (metis UN_I nth_mem)
  next
    fix v assume "v \<in> (\<Union>c \<in> set (children_of i es). (edge_rel es)\<^sup>+ `` {c})"
    then obtain c where "c \<in> set (children_of i es)" and v: "v \<in> (edge_rel es)\<^sup>+ `` {c}"
      by blast
    then obtain k where "k < length (children_of i es)" "children_of i es ! k = c"
      by (auto simp only: in_set_conv_nth)
    with v have "k < length (children_of i es)"
      "v \<in> (edge_rel es)\<^sup>+ `` {children_of i es ! k}" by simp_all
    with each len have "v \<in> set (dss ! k)" "dss ! k \<in> set dss" by auto
    then show "v \<in> set (concat dss)" by auto
  qed
  then have "set ds = edge_rel es `` {i} \<union> (\<Union>c \<in> edge_rel es `` {i}. (edge_rel es)\<^sup>+ `` {c})"
    by (simp add: ds set_children_of)
  also have "\<dots> = (edge_rel es)\<^sup>+ `` {i}"
    using trancl_first_step[of i _ "edge_rel es"] by blast
  finally show ?case .
qed

text \<open>
  Claim C10. The walk returns (for every stack depth from some depth on, the same list)
  when no cycle can be reached from the start id; when one can, it returns at no depth,
  since nothing in it stops a repeated visit.
\<close>

theorem getDescendants_returns_iff_acyclic:
  "(acyclic_from i es \<longrightarrow> (\<exists>depth ds. \<forall>d \<ge> depth. getDescendants d i es = Some ds)) \<and>
   (\<not> acyclic_from i es \<longrightarrow> (\<forall>d. getDescendants d i es = None))"
proof (intro conjI impI)
  assume "acyclic_from i es"
  then obtain depth ds where "getDescendants depth i es = Some ds"
    using getDescendants_returns by blast
  then have "\<forall>d \<ge> depth. getDescendants d i es = Some ds"
    using getDescendants_mono by blast
  then show "\<exists>depth ds. \<forall>d \<ge> depth. getDescendants d i es = Some ds" by blast
next
  assume "\<not> acyclic_from i es"
  then obtain v where "(i, v) \<in> (edge_rel es)\<^sup>*" "(v, v) \<in> (edge_rel es)\<^sup>+"
    by (auto simp: acyclic_from_def)
  then show "\<forall>d. getDescendants d i es = None"
    using getDescendants_cycle by blast
qed

lemma tree_descendants_root:
  "getDescendants 3 ''root'' (edges tree_page) = Some [''node-0'', ''node-2'', ''node-1'']"
  by (simp add: tree_page_def new_edge_def numeral_3_eq_3)

lemma tree_descendants_node0:
  "getDescendants 2 ''node-0'' (edges tree_page) = Some [''node-1'']"
  by (simp add: tree_page_def new_edge_def numeral_2_eq_2)

lemma looped_cycle: "\<not> acyclic_from ''node-1'' (edges looped_page)"
proof -
  have "(''node-1'', ''node-1'') \<in> edge_rel (edges looped_page)"
    by (simp add: edge_rel_def looped_page_def new_edge_def)
  then have "(''node-1'', ''node-1'') \<in> (edge_rel (edges looped_page))\<^sup>+" by (rule r_into_trancl)
  then show ?thesis unfolding acyclic_from_def by blast
qed

theorem getDescendants_returns_iff_acyclic_witness:
  "acyclic_from ''root'' (edges tree_page) \<and>
   (\<exists>depth. \<forall>d \<ge> depth. getDescendants d ''root'' (edges tree_page)
      = Some [''node-0'', ''node-2'', ''node-1'']) \<and>
   \<not> acyclic_from ''node-1'' (edges looped_page) \<and>
   getDescendants 7 ''node-1'' (edges looped_page) = None"
proof -
  have acyc: "acyclic_from ''root'' (edges tree_page)"
    using tree_descendants_root by (rule getDescendants_acyclic)
  with getDescendants_returns_iff_acyclic[of "''root''" "edges tree_page"]
  obtain depth ds where
    all: "\<forall>d \<ge> depth. getDescendants d ''root'' (edges tree_page) = Some ds" by blast
  have "getDescendants (max depth 3) ''root'' (edges tree_page)
      = Some [''node-0'', ''node-2'', ''node-1'']"
    using tree_descendants_root by (rule getDescendants_mono) simp
  with all have "ds = [''node-0'', ''node-2'', ''node-1'']" by simp
  with all have "\<exists>depth. \<forall>d \<ge> depth. getDescendants d ''root'' (edges tree_page)
      = Some [''node-0'', ''node-2'', ''node-1'']" by blast
  moreover have "getDescendants 7 ''node-1'' (edges looped_page) = None"
    using getDescendants_returns_iff_acyclic[of "''node-1''" "edges looped_page"] looped_cycle
    by blast
  ultimately show ?thesis using acyc looped_cycle by blast
qed


section \<open>Deleting a node\<close>

text \<open>
  Claim C2, as the code has it. When no cycle can be reached from the node, a confirmed
  deletion returns and keeps exactly the nodes whose id is neither the node's nor
  reachable from it, and exactly the edges with neither end among those ids, in their
  order and unchanged. The function has no case for the root: the root stays if and only
  if it is neither the node deleted nor reachable from it.
\<close>

theorem deleteNode_removes_descendants:
  assumes "acyclic_from nodeId (edges s)"
  shows "\<exists>depth s'. (\<forall>d \<ge> depth. deleteNode d True nodeId now s = Some s') \<and>
     nodes s' = filter (\<lambda>n. node_id n \<notin> doomed nodeId (edges s)) (nodes s) \<and>
     edges s' = filter (\<lambda>e. source e \<notin> doomed nodeId (edges s) \<and>
                             target e \<notin> doomed nodeId (edges s)) (edges s) \<and>
     (''root'' \<in> node_id ` set (nodes s') \<longleftrightarrow>
        ''root'' \<in> node_id ` set (nodes s) \<and> ''root'' \<noteq> nodeId \<and>
        (nodeId, ''root'') \<notin> (edge_rel (edges s))\<^sup>+)"
proof -
  from assms obtain depth ds where ds: "getDescendants depth nodeId (edges s) = Some ds"
    using getDescendants_returns by blast
  then have gone: "set (nodeId # ds) = doomed nodeId (edges s)"
    by (simp add: doomed_def set_getDescendants)
  define s' where "s' = snd (setTimeout (SaveCall True 0) 300 now
      (s\<lparr>nodes := filter (\<lambda>n. node_id n \<notin> set (nodeId # ds)) (nodes s),
         edges := filter (\<lambda>e. source e \<notin> set (nodeId # ds) \<and> target e \<notin> set (nodeId # ds))
                    (edges s),
         hasUnsavedChanges := True\<rparr>))"
  have "deleteNode d True nodeId now s = Some s'" if "depth \<le> d" for d
  proof -
    from ds that have "getDescendants d nodeId (edges s) = Some ds" by (rule getDescendants_mono)
    then show ?thesis by (simp add: deleteNode_def s'_def Let_def)
  qed
  moreover have n: "nodes s' = filter (\<lambda>n. node_id n \<notin> doomed nodeId (edges s)) (nodes s)"
    unfolding gone[symmetric] by (simp add: s'_def setTimeout_def)
  moreover have "edges s' = filter (\<lambda>e. source e \<notin> doomed nodeId (edges s) \<and>
                             target e \<notin> doomed nodeId (edges s)) (edges s)"
    unfolding gone[symmetric] by (simp add: s'_def setTimeout_def)
  moreover have "''root'' \<in> node_id ` set (nodes s') \<longleftrightarrow>
        ''root'' \<in> node_id ` set (nodes s) \<and> ''root'' \<noteq> nodeId \<and>
        (nodeId, ''root'') \<notin> (edge_rel (edges s))\<^sup>+"
    unfolding n by (auto simp: doomed_def)
  ultimately show ?thesis by blast
qed

lemma tree_doomed_node0: "doomed ''node-0'' (edges tree_page) = {''node-0'', ''node-1''}"
  unfolding doomed_def set_getDescendants[OF tree_descendants_node0, symmetric] by simp

lemma tree_nodes_left: "map node_id (filter (\<lambda>n. node_id n \<notin> {''node-0'', ''node-1''}) (nodes tree_page)) = [''root'', ''node-2'']"
    by (simp add: tree_page_def root_node_def make_root_def outcome_def new_outcome_node_def)

lemma tree_edges_left: "map edge_id (filter (\<lambda>e. source e \<notin> {''node-0'', ''node-1''} \<and>
                             target e \<notin> {''node-0'', ''node-1''}) (edges tree_page)) = [''edge-root-node-2'']"
    by (simp add: tree_page_def new_edge_def)

theorem deleteNode_removes_descendants_witness:
  "acyclic_from ''node-0'' (edges tree_page) \<and>
   (\<exists>depth s'. (\<forall>d \<ge> depth. deleteNode d True ''node-0'' 0 tree_page = Some s') \<and>
      map node_id (nodes s') = [''root'', ''node-2''] \<and>
      map edge_id (edges s') = [''edge-root-node-2''])"
proof -
  have acyc: "acyclic_from ''node-0'' (edges tree_page)"
    using tree_descendants_node0 by (rule getDescendants_acyclic)
  from deleteNode_removes_descendants[OF acyc, of 0] obtain depth s' where
    ret: "\<forall>d \<ge> depth. deleteNode d True ''node-0'' 0 tree_page = Some s'" and
    ns: "nodes s' = filter (\<lambda>n. node_id n \<notin> doomed ''node-0'' (edges tree_page)) (nodes tree_page)" and
    es: "edges s' = filter (\<lambda>e. source e \<notin> doomed ''node-0'' (edges tree_page) \<and>
                             target e \<notin> doomed ''node-0'' (edges tree_page)) (edges tree_page)"
    by blast
  have "map node_id (nodes s') = [''root'', ''node-2'']"
    unfolding ns tree_doomed_node0 by (rule tree_nodes_left)
  moreover have "map edge_id (edges s') = [''edge-root-node-2'']"
    unfolding es tree_doomed_node0 by (rule tree_edges_left)
  ultimately have "(\<forall>d \<ge> depth. deleteNode d True ''node-0'' 0 tree_page = Some s') \<and>
      map node_id (nodes s') = [''root'', ''node-2''] \<and>
      map edge_id (edges s') = [''edge-root-node-2'']"
    using ret by (intro conjI)
  then have "\<exists>depth s'. (\<forall>d \<ge> depth. deleteNode d True ''node-0'' 0 tree_page = Some s') \<and>
      map node_id (nodes s') = [''root'', ''node-2''] \<and>
      map edge_id (edges s') = [''edge-root-node-2'']"
    by (intro exI)
  with acyc show ?thesis by (intro conjI)
qed

text \<open>
  The claim as written covers every state and says the root is never removed. Deleting
  \<open>root\<close> removes it with everything else, and with an edge from a node to itself the
  deletion of that node returns at no depth.
\<close>

theorem deleteNode_root_and_cycle:
  "''root'' \<in> node_id ` set (nodes tree_page) \<and>
   map_option (\<lambda>s'. map node_id (nodes s')) (deleteNode 3 True ''root'' 0 tree_page) = Some [] \<and>
   \<not> (\<exists>d s'. deleteNode d True ''node-1'' 0 looped_page = Some s')"
proof -
  have "getDescendants d ''node-1'' (edges looped_page) = None" for d
  proof -
    have "(''node-1'', ''node-1'') \<in> edge_rel (edges looped_page)"
      by (simp add: edge_rel_def looped_page_def new_edge_def)
    then have "(''node-1'', ''node-1'') \<in> (edge_rel (edges looped_page))\<^sup>+"
      by (rule r_into_trancl)
    then show ?thesis using getDescendants_cycle by blast
  qed
  then have "\<not> (\<exists>d s'. deleteNode d True ''node-1'' 0 looped_page = Some s')"
    by (simp add: deleteNode_def)
  moreover have "map_option (\<lambda>s'. map node_id (nodes s')) (deleteNode 3 True ''root'' 0 tree_page)
      = Some []"
    by (simp add: deleteNode_def tree_descendants_root setTimeout_def)
      (simp add: tree_page_def root_node_def make_root_def outcome_def new_outcome_node_def)
  moreover have "''root'' \<in> node_id ` set (nodes tree_page)"
    by (simp add: tree_page_def root_node_def make_root_def)
  ultimately show ?thesis by blast
qed

section \<open>Building connections\<close>

lemma saveGraph_graph [simp]:
  "nodes (saveGraph imm rc now s) = nodes s"
  "edges (saveGraph imm rc now s) = edges s"
  "nodeCounter (saveGraph imm rc now s) = nodeCounter s"
  "editingNodes (saveGraph imm rc now s) = editingNodes s"
  "editingEdges (saveGraph imm rc now s) = editingEdges s"
  "connectingNodeId (saveGraph imm rc now s) = connectingNodeId s"
  by (simp_all add: saveGraph_def clearPending_def scheduleSave_def setTimeout_def
      clearTimeout_def Let_def split: option.splits)





lemma new_edge_fields [simp]:
  "source (new_edge a b) = a" "target (new_edge a b) = b"
  "edge_id (new_edge a b) = ''edge-'' @ a @ ''-'' @ b"
  by (simp_all add: new_edge_def)






lemma node_name_3: "node_name 3 = ''node-3''"
  by (simp add: node_name_def string_of_nat.simps digit_char_def)



text \<open>
  The bound on the counter is needed. After the load of \<open>node-9007199254740992\<close> the
  counter is \<open>2 ^ 53\<close> and stays there, so two gestures from the root on an empty edge
  collection add the same pair twice.
\<close>

theorem builder_repeats_id_at_2_53:
  "edges (processGraphData big_fetch False initial) = [] \<and>
   map endpoints (edges (fold (builder id)
      [ConnectStart (Some ''root''), ConnectEnd pane_release 5000,
       ConnectStart (Some ''root''), ConnectEnd pane_release 6000]
      (processGraphData big_fetch False initial)))
     = [(''root'', ''node-9007199254740992''), (''root'', ''node-9007199254740992'')]"
proof -
  let ?s = "processGraphData big_fetch False initial"
  have suffix: "node_suffix (outcome ''node-9007199254740992'' ''z'') = 2 ^ 53"
    by (simp add: node_suffix_def outcome_def new_outcome_node_def parseInt_def
        decimal_value_def digit_val_def is_digit_def round_double_exact)
  have counter: "nodeCounter ?s = 2 ^ 53"
    by (simp add: processGraphData_def big_fetch_def initial_def Let_def Math_max_def suffix
        js_plus_Suc0_stuck[simplified])
  have none: "edges ?s = []"
    by (simp add: processGraphData_def big_fetch_def initial_def Let_def mergeEdges_def)
  have name: "node_name (2 ^ 53) = ''node-9007199254740992''"
    by (simp add: node_name_def string_of_nat.simps digit_char_def)
  have gesture: "edges (onConnectEnd id pane_release now (onConnectStart (Some ''root'') s))
        = edges s @ [new_edge ''root'' ''node-9007199254740992''] \<and>
      nodeCounter (onConnectEnd id pane_release now (onConnectStart (Some ''root'') s)) = 2 ^ 53"
    if "nodeCounter s = 2 ^ 53" for s now
    using that name js_plus_one_stuck
    by (simp add: onConnectEnd_def onConnectStart_def pane_release_def Let_def)
  from gesture[OF counter, of 5000] gesture[of _ 6000] none show ?thesis
    by (simp add: endpoints_def)
qed

text \<open>
  Claim C7, as the code has it. With a start node recorded and the pointer known: a release
  on the empty canvas adds one outcome node at the projected release point and one edge
  from the start node to it; a release on a node or a handle leaves \<open>onConnectEnd\<close> with
  nothing to do but forget the start node. Without a start node \<open>onConnectEnd\<close> does the
  same. The direct-connect path, \<open>onConnect\<close>, adds a new outcome node below the source
  (220 to the right per existing child) and an edge from the source to that new node; when
  the source node is not in the store it only advances the counter.
\<close>

theorem connection_gesture:
  "(connectingNodeId s = Some src \<and> src \<noteq> [] \<and> release_point ev = Some (cx, cy) \<longrightarrow>
      (\<not> targetIsNode ev \<and> \<not> targetIsHandle ev \<and> wrapper ev = Some (l, t) \<longrightarrow>
         nodes (onConnectEnd project ev now s) =
           nodes s @ [new_outcome_node (node_name (nodeCounter s)) (project (cx - l, cy - t))] \<and>
         edges (onConnectEnd project ev now s) =
           edges s @ [new_edge src (node_name (nodeCounter s))] \<and>
         nodeCounter (onConnectEnd project ev now s) = js_plus (nodeCounter s) 1 \<and>
         connectingNodeId (onConnectEnd project ev now s) = None) \<and>
      (targetIsNode ev \<or> targetIsHandle ev \<longrightarrow>
         onConnectEnd project ev now s = s\<lparr>connectingNodeId := None\<rparr>)) \<and>
   (connectingNodeId s = None \<or> connectingNodeId s = Some [] \<longrightarrow>
      onConnectEnd project ev now s = s\<lparr>connectingNodeId := None\<rparr>) \<and>
   (find (\<lambda>n. node_id n = conn_source c) (nodes s) = Some sourceNode \<longrightarrow>
      nodes (onConnect c s) =
        nodes s @ [new_outcome_node (node_name (nodeCounter s))
          (fst (node_position sourceNode)
             + int (length (filter (\<lambda>e. source e = conn_source c) (edges s))) * 220 - 100,
           snd (node_position sourceNode) + 200)] \<and>
      edges (onConnect c s) =
        edges s @ [new_edge (conn_source c) (node_name (nodeCounter s))] \<and>
      nodeCounter (onConnect c s) = js_plus (nodeCounter s) 1) \<and>
   (find (\<lambda>n. node_id n = conn_source c) (nodes s) = None \<longrightarrow>
      onConnect c s = s\<lparr>nodeCounter := js_plus (nodeCounter s) 1\<rparr>)"
  by (auto simp: onConnectEnd_def onConnect_def release_point_def Let_def)

theorem connection_gesture_witness:
  "map node_id (nodes (onConnectEnd id pane_release 0 gesture_page))
     = [''root'', ''node-0'', ''node-1'', ''node-2'', ''node-3''] \<and>
   node_position (last (nodes (onConnectEnd id pane_release 0 gesture_page))) = (280, 390) \<and>
   map endpoints (edges (onConnectEnd id pane_release 0 gesture_page))
     = [(''root'', ''node-0''), (''node-0'', ''node-1''), (''root'', ''node-2''),
        (''root'', ''node-3'')] \<and>
   onConnectEnd id handle_release 0 gesture_page = gesture_page\<lparr>connectingNodeId := None\<rparr> \<and>
   onConnectEnd id pane_release 0 (gesture_page\<lparr>connectingNodeId := None\<rparr>)
     = gesture_page\<lparr>connectingNodeId := None\<rparr> \<and>
   onConnect \<lparr>conn_source = ''node-9'', conn_target = ''node-2''\<rparr> gesture_page
     = gesture_page\<lparr>nodeCounter := 4\<rparr>"
proof -
  have p: "connectingNodeId gesture_page = Some ''root'' \<and> ''root'' \<noteq> [] \<and>
      release_point pane_release = Some (300, 400)"
    by (simp add: gesture_page_def release_point_def pane_release_def)
  have h: "connectingNodeId gesture_page = Some ''root'' \<and> ''root'' \<noteq> [] \<and>
      release_point handle_release = Some (300, 400)"
    by (simp add: gesture_page_def release_point_def pane_release_def handle_release_def)
  have w: "\<not> targetIsNode pane_release \<and> \<not> targetIsHandle pane_release \<and>
      wrapper pane_release = Some (20, 10)"
    by (simp add: pane_release_def)
  have hh: "targetIsNode handle_release \<or> targetIsHandle handle_release"
    by (simp add: handle_release_def pane_release_def)
  have n: "find (\<lambda>n. node_id n = ''node-9'') (nodes gesture_page) = None"
    by (simp add: gesture_page_def root_node_def make_root_def outcome_def new_outcome_node_def)
  note pane = connection_gesture[of gesture_page "''root''" pane_release 300 400 20 10 id 0]
  note hand = connection_gesture[of gesture_page "''root''" handle_release 300 400 20 10 id 0]
  note none = connection_gesture[of "gesture_page\<lparr>connectingNodeId := None\<rparr>" "''root''"
      pane_release 300 400 20 10 id 0]
  note conn = connection_gesture[of gesture_page "''root''" pane_release 300 400 20 10 id 0
      "\<lparr>conn_source = ''node-9'', conn_target = ''node-2''\<rparr>"]
  have 1: "nodes (onConnectEnd id pane_release 0 gesture_page) =
      nodes gesture_page @ [new_outcome_node (node_name 3) (280, 390)]"
    and 2: "edges (onConnectEnd id pane_release 0 gesture_page) =
      edges gesture_page @ [new_edge ''root'' (node_name 3)]"
    using pane p w by (simp_all add: gesture_page_def)
  have 3: "onConnectEnd id handle_release 0 gesture_page = gesture_page\<lparr>connectingNodeId := None\<rparr>"
    using hand h hh by blast
  have 4: "onConnectEnd id pane_release 0 (gesture_page\<lparr>connectingNodeId := None\<rparr>)
     = gesture_page\<lparr>connectingNodeId := None\<rparr>"
    using none by simp
  have 5: "onConnect \<lparr>conn_source = ''node-9'', conn_target = ''node-2''\<rparr> gesture_page
     = gesture_page\<lparr>nodeCounter := 4\<rparr>"
    using conn n by (simp add: gesture_page_def js_plus_def round_double_def)
  show ?thesis unfolding 1 2 3 4 5
    by (simp add: gesture_page_def node_name_3 root_node_def make_root_def outcome_def new_outcome_node_def
        endpoints_def)
qed

text \<open>
  The claim as written has a release on a handle create the edge alone. On such a release
  \<open>onConnectEnd\<close> creates nothing, and \<open>onConnect\<close> creates a fifth node, with the
  edge going to it and not to the node connected to.
\<close>

theorem direct_connect_creates_node:
  "edges (onConnectEnd id handle_release 0 gesture_page) = edges gesture_page \<and>
   nodes (onConnectEnd id handle_release 0 gesture_page) = nodes gesture_page \<and>
   map node_id (nodes (onConnect \<lparr>conn_source = ''root'', conn_target = ''node-2''\<rparr> gesture_page))
     = [''root'', ''node-0'', ''node-1'', ''node-2'', ''node-3''] \<and>
   map endpoints (edges (onConnect \<lparr>conn_source = ''root'', conn_target = ''node-2''\<rparr> gesture_page))
     = [(''root'', ''node-0''), (''node-0'', ''node-1''), (''root'', ''node-2''),
        (''root'', ''node-3'')]"
  by (simp add: onConnectEnd_def onConnect_def handle_release_def pane_release_def
      gesture_page_def root_node_def make_root_def outcome_def new_outcome_node_def endpoints_def
      node_name_3 Let_def)

section \<open>Beginning an edit\<close>

text \<open>
  Claim C8 on the code. A throttled request at time 500 leaves a timer due at 1000 in
  \<open>saveTimeout\<close>. Beginning a node edit clears it. Beginning an edge edit leaves it
  pending; it fires inside the editing window, where \<open>saveGraph\<close> defers once more
  (no write is issued).
\<close>

theorem edge_edit_keeps_pending_save:
  "timers pending_page = [\<lparr>handle = 1, due = 1000, act = SaveCall False 0\<rparr>] \<and>
   saveTimeout pending_page = Some 1 \<and>
   timers (startEditingNode i pending_page) = [] \<and>
   saveTimeout (startEditingNode i pending_page) = None \<and>
   timers (onEdgeDoubleClick e pending_page) = timers pending_page \<and>
   saveTimeout (onEdgeDoubleClick e pending_page) = Some 1 \<and>
   timers (fire 1 1000 (onEdgeDoubleClick e pending_page))
     = [\<lparr>handle = 2, due = 3000, act = SaveCall False 0\<rparr>] \<and>
   writes (fire 1 1000 (onEdgeDoubleClick e pending_page)) = []"
proof -
  have p: "pending_page = initial\<lparr>timers := [\<lparr>handle = 1, due = 1000, act = SaveCall False 0\<rparr>],
      nextTimer := 2, saveTimeout := Some 1\<rparr>"
    by (simp add: pending_page_def saveGraph_def initial_def clearPending_def scheduleSave_def
        setTimeout_def Let_def)
  show ?thesis unfolding p
    by (simp add: initial_def startEditingNode_def onEdgeDoubleClick_def clearPending_def
        clearTimeout_def fire_def run_action_def saveGraph_def scheduleSave_def setTimeout_def
        Let_def)
qed

section \<open>Reconciliation during an edit\<close>

lemma two_ids_length:
  assumes "a \<in> node_id ` set prev" and "b \<in> node_id ` set prev" and "a \<noteq> b"
  shows "1 < length prev"
proof (cases prev)
  case Nil
  with assms show ?thesis by simp
next
  case (Cons x xs)
  with assms show ?thesis by (cases xs) auto
qed

lemma find_root_present:
  "''root'' \<in> node_id ` set prev \<Longrightarrow> \<exists>r. find (\<lambda>n. node_id n = ''root'') prev = Some r \<and> node_id r = ''root''"
  by (cases "find (\<lambda>n. node_id n = ''root'') prev") (auto simp: find_None_iff find_Some_iff)

lemma mergeNodes_root:
  assumes "''root'' \<in> node_id ` set prev"
  shows "''root'' \<in> node_id ` set (mergeNodes editing b loaded prev)"
proof -
  from find_root_present[OF assms] obtain r where
    "find (\<lambda>n. node_id n = ''root'') prev = Some r" "node_id r = ''root''" by blast
  then show ?thesis by (auto simp: mergeNodes_def with_root_def Let_def)
qed

lemma mergeNodes_held:
  assumes "i \<in> editing" and "i \<noteq> ''root''" and "1 < length prev"
  shows "filter (\<lambda>n. node_id n = i) (mergeNodes editing False loaded prev)
       = filter (\<lambda>n. node_id n = i) prev"
proof -
  have a: "filter (\<lambda>n. node_id n \<notin> editing \<and> node_id n = i) loaded = []"
    using assms(1) by (auto simp: filter_empty_conv)
  have b: "filter (\<lambda>n. node_id n \<noteq> ''root'' \<and> node_id n \<in> editing \<and> node_id n = i) prev
      = filter (\<lambda>n. node_id n = i) prev"
    using assms(1,2) by (auto intro: filter_cong)
  have c: "filter (\<lambda>n. node_id n = i) (with_root (find (\<lambda>n. node_id n = ''root'') prev) ns)
      = filter (\<lambda>n. node_id n = i) ns" for ns
  proof (cases "find (\<lambda>n. node_id n = ''root'') prev")
    case None
    then show ?thesis by (simp add: with_root_def)
  next
    case (Some r)
    then have "node_id r = ''root''" by (rule find_root_id)
    with Some assms(2) show ?thesis by (auto simp: with_root_def)
  qed
  show ?thesis using assms(3) by (simp add: mergeNodes_def Let_def c a b)
qed

lemma mergeEdges_held:
  assumes "i \<in> editing" and "prev \<noteq> []"
  shows "filter (\<lambda>e. edge_id e = i) (mergeEdges editing False loaded prev)
       = filter (\<lambda>e. edge_id e = i) prev"
proof -
  have a: "filter (\<lambda>e. edge_id e \<notin> editing \<and> edge_id e = i) loaded = []"
    using assms(1) by (auto simp: filter_empty_conv)
  have b: "filter (\<lambda>e. edge_id e \<in> editing \<and> edge_id e = i) prev
      = filter (\<lambda>e. edge_id e = i) prev"
    using assms(1) by (auto intro: filter_cong)
  show ?thesis using assms(2) by (simp add: mergeEdges_def Let_def a b)
qed

lemma processGraphData_sets [simp]:
  "editingNodes (processGraphData g b s) = editingNodes s"
  "editingEdges (processGraphData g b s) = editingEdges s"
  by (simp_all add: processGraphData_def Let_def split: option.splits)

lemma processGraphData_root:
  "''root'' \<in> node_id ` set (nodes s) \<Longrightarrow> ''root'' \<in> node_id ` set (nodes (processGraphData g b s))"
  by (simp add: processGraphData_def Let_def mergeNodes_root split: option.splits)

lemma held_nodes_nonempty: "held_nodes i s \<noteq> [] \<longleftrightarrow> i \<in> node_id ` set (nodes s)"
  by (auto simp: held_nodes_def filter_empty_conv)

lemma processGraphData_held_nodes:
  assumes "i \<in> editingNodes s" and "i \<noteq> ''root''" and "''root'' \<in> node_id ` set (nodes s)"
    and "held_nodes i s \<noteq> []"
  shows "held_nodes i (processGraphData g False s) = held_nodes i s"
proof -
  from assms(2,3,4) have "1 < length (nodes s)"
    using two_ids_length[of i "nodes s" "''root''"] by (simp add: held_nodes_nonempty)
  with assms(1,2) show ?thesis
    by (simp add: processGraphData_def held_nodes_def Let_def mergeNodes_held split: option.splits)
qed

lemma processGraphData_held_edges:
  assumes "i \<in> editingEdges s" and "held_edges i s \<noteq> []"
  shows "held_edges i (processGraphData g False s) = held_edges i s"
proof -
  from assms(2) have "edges s \<noteq> []" by (auto simp: held_edges_def)
  with assms(1) show ?thesis
    by (simp add: processGraphData_def held_edges_def Let_def mergeEdges_held split: option.splits)
qed

lemma hold_fields [simp]:
  "held_nodes i (s\<lparr>location := l, page_notes := ns\<rparr>) = held_nodes i s"
  "held_edges i (s\<lparr>location := l, page_notes := ns\<rparr>) = held_edges i s"
  by (simp_all add: held_nodes_def held_edges_def)

lemma locationEffect_sets [simp]:
  "editingNodes (locationEffect now s) = editingNodes s"
  "editingEdges (locationEffect now s) = editingEdges s"
  by (simp_all add: locationEffect_def setTimeout_def Let_def split: option.splits)

lemma notesEffect_fields [simp]:
  "nodes (notesEffect s) = nodes s"
  "editingNodes (notesEffect s) = editingNodes s"
  "editingEdges (notesEffect s) = editingEdges s"
  by (simp_all add: notesEffect_def)

lemma make_root_id [simp]: "node_id (make_root loc r) = ''root''"
  by (simp add: make_root_def)

lemma filter_rewrite_root:
  "i \<noteq> ''root'' \<Longrightarrow>
   filter (\<lambda>n. node_id n = i) (map (\<lambda>n. if node_id n = ''root'' then make_root loc r else n) ns)
     = filter (\<lambda>n. node_id n = i) ns"
  by (induction ns) auto

lemma locationEffect_with_data:
  assumes "location s = Some loc" and "hasLocationData loc"
  shows "''root'' \<in> node_id ` set (nodes (locationEffect now s))"
    and "i \<noteq> ''root'' \<Longrightarrow> held_nodes i (locationEffect now s) = held_nodes i s"
    and "edges (locationEffect now s) = edges s"
proof -
  show "''root'' \<in> node_id ` set (nodes (locationEffect now s))"
  proof (cases "find (\<lambda>n. node_id n = ''root'') (nodes s)")
    case None
    with assms show ?thesis by (simp add: locationEffect_def setTimeout_def Let_def)
  next
    case (Some r)
    then have "r \<in> set (nodes s)" "node_id r = ''root''"
      by (auto simp: find_Some_iff)
    then have "make_root loc (Some r) \<in> set (map (\<lambda>n. if node_id n = ''root''
        then make_root loc (Some r) else n) (nodes s))"
      by (auto simp: image_iff intro!: bexI[of _ r])
    then have "''root'' \<in> node_id ` set (map (\<lambda>n. if node_id n = ''root''
        then make_root loc (Some r) else n) (nodes s))"
      by (intro image_eqI[of _ _ "make_root loc (Some r)"]) simp_all
    moreover have "nodes (locationEffect now s) = map (\<lambda>n. if node_id n = ''root''
        then make_root loc (Some r) else n) (nodes s)"
      using assms Some by (simp add: locationEffect_def setTimeout_def Let_def)
    ultimately show ?thesis by (simp only:)
  qed
  show "held_nodes i (locationEffect now s) = held_nodes i s" if "i \<noteq> ''root''"
    using assms that
    by (simp add: locationEffect_def setTimeout_def Let_def held_nodes_def filter_rewrite_root
        split: option.splits)
  show "edges (locationEffect now s) = edges s"
    using assms by (simp add: locationEffect_def setTimeout_def Let_def split: option.splits)
qed

lemma restyle_content [simp]:
  "edge_id (restyle ns e) = edge_id e" "edge_content (restyle ns e) = edge_content e"
  by (simp_all add: restyle_def edge_content_def split: option.splits)

lemma notesEffect_held_edges:
  "held_edges i (notesEffect s) = held_edges i s \<or>
   held_edges i (notesEffect s) = map (restyle (page_notes s)) (held_edges i s)"
  by (simp add: notesEffect_def held_edges_def filter_map comp_def)

lemma fetch_sets [simp]:
  "editingNodes (fetchData_response f now s) = editingNodes s"
  "editingEdges (fetchData_response f now s) = editingEdges s"
  by (simp_all add: fetchData_response_def Let_def)

lemma fetch_keeps_node:
  assumes "i \<in> editingNodes s" and "i \<noteq> ''root''" and "''root'' \<in> node_id ` set (nodes s)"
    and "held_nodes i s \<noteq> []" and "hasLocationData (f_location f)"
  shows "''root'' \<in> node_id ` set (nodes (fetchData_response f now s)) \<and>
         held_nodes i (fetchData_response f now s) = held_nodes i s"
proof -
  let ?s0 = "s\<lparr>location := Some (f_location f), page_notes := f_notes f\<rparr>"
  let ?s1 = "processGraphData (f_graph f) False ?s0"
  have l: "location ?s1 = Some (f_location f)"
    by (simp add: processGraphData_def Let_def split: option.splits)
  have r: "''root'' \<in> node_id ` set (nodes ?s1)"
    using assms(3) by (intro processGraphData_root) simp
  have h: "held_nodes i ?s1 = held_nodes i s"
    using processGraphData_held_nodes[of i ?s0 "f_graph f"] assms(1-4) by simp
  show ?thesis
    using r h locationEffect_with_data(1,2)[OF l assms(5)] assms(2)
    by (simp add: fetchData_response_def Let_def held_nodes_def)
qed

lemma fetch_keeps_edge:
  assumes "i \<in> editingEdges s" and "held_edges i s \<noteq> []" and "hasLocationData (f_location f)"
  shows "held_edges i (fetchData_response f now s) \<noteq> [] \<and>
         map edge_content (held_edges i (fetchData_response f now s))
           = map edge_content (held_edges i s)"
proof -
  let ?s0 = "s\<lparr>location := Some (f_location f), page_notes := f_notes f\<rparr>"
  let ?s1 = "processGraphData (f_graph f) False ?s0"
  let ?s2 = "if location_deps (location s) = location_deps (Some (f_location f)) then ?s1
             else locationEffect now ?s1"
  have l: "location ?s1 = Some (f_location f)"
    by (simp add: processGraphData_def Let_def split: option.splits)
  have "held_edges i ?s1 = held_edges i s"
    using processGraphData_held_edges[of i ?s0 "f_graph f"] assms(1,2) by simp
  then have h: "held_edges i ?s2 = held_edges i s"
    using locationEffect_with_data(3)[OF l assms(3)] by (simp add: held_edges_def)
  have f: "fetchData_response f now s = notesEffect ?s2"
    by (simp add: fetchData_response_def Let_def)
  from notesEffect_held_edges[of i ?s2] show ?thesis unfolding f h
    using assms(2) by (auto simp: comp_def)
qed

lemma response_graph [simp]:
  "nodes (saveGraph_response ok imm rc now s) = nodes s"
  "edges (saveGraph_response ok imm rc now s) = edges s"
  "editingNodes (saveGraph_response ok imm rc now s) = editingNodes s"
  "editingEdges (saveGraph_response ok imm rc now s) = editingEdges s"
  by (simp_all add: saveGraph_response_def saveFinally_def saveSucceeded_def saveFailed_def
      setTimeout_def Let_def split: list.splits prod.splits)

lemma respond_graph [simp]:
  "nodes (respond k ok now s) = nodes s"
  "edges (respond k ok now s) = edges s"
  "editingNodes (respond k ok now s) = editingNodes s"
  "editingEdges (respond k ok now s) = editingEdges s"
  by (simp_all add: respond_def)

lemma fire_graph [simp]:
  "nodes (fire h now s) = nodes s"
  "edges (fire h now s) = edges s"
  "editingNodes (fire h now s) = editingNodes s"
  "editingEdges (fire h now s) = editingEdges s"
  by (simp_all add: fire_def run_action_def clearTimeout_def split: option.splits action.splits)

lemma startEditingNode_graph [simp]:
  "nodes (startEditingNode j s) = setEditingFlag j True (nodes s)"
  "edges (startEditingNode j s) = edges s"
  "editingNodes (startEditingNode j s) = insert j (editingNodes s)"
  "editingEdges (startEditingNode j s) = editingEdges s"
  by (simp_all add: startEditingNode_def clearPending_def clearTimeout_def Let_def
      split: option.splits)

lemma endEditingNode_graph [simp]:
  "nodes (endEditingNode j now s) = setEditingFlag j False (nodes s)"
  "edges (endEditingNode j now s) = edges s"
  "editingNodes (endEditingNode j now s) = editingNodes s - {j}"
  "editingEdges (endEditingNode j now s) = editingEdges s"
  by (simp_all add: endEditingNode_def setTimeout_def)

lemma onEdgeDoubleClick_graph [simp]:
  "nodes (onEdgeDoubleClick e s) = nodes s"
  "edges (onEdgeDoubleClick e s) = edges s"
  "editingNodes (onEdgeDoubleClick e s) = editingNodes s"
  "editingEdges (onEdgeDoubleClick e s) = insert (edge_id e) (editingEdges s)"
  by (simp_all add: onEdgeDoubleClick_def)

lemma endEditingEdge_graph [simp]:
  "nodes (endEditingEdge j now s) = nodes s"
  "edges (endEditingEdge j now s) = edges s"
  "editingNodes (endEditingEdge j now s) = editingNodes s"
  "editingEdges (endEditingEdge j now s) = editingEdges s - {j}"
  by (simp_all add: endEditingEdge_def)

lemma setEditingFlag_ids [simp]: "node_id ` set (setEditingFlag j b ns) = node_id ` set ns"
  by (induction ns) (simp_all add: setEditingFlag_def)

lemma filter_setEditingFlag_other:
  "j \<noteq> i \<Longrightarrow> filter (\<lambda>n. node_id n = i) (setEditingFlag j b ns) = filter (\<lambda>n. node_id n = i) ns"
  by (induction ns) (auto simp: setEditingFlag_def)

lemma filter_setEditingFlag_same:
  "filter (\<lambda>n. node_id n = i) (setEditingFlag i b ns)
     = map (\<lambda>n. n\<lparr>isEditing := b\<rparr>) (filter (\<lambda>n. node_id n = i) ns)"
  by (induction ns) (auto simp: setEditingFlag_def)

lemma flag_already: "\<forall>n \<in> set ns. isEditing n = b \<Longrightarrow> map (\<lambda>n. n\<lparr>isEditing := b\<rparr>) ns = ns"
  by (induction ns) auto

lemma step_keeps_node:
  assumes "snd ev \<noteq> EndEditNode i" and "i \<in> editingNodes s" and "i \<noteq> ''root''"
    and "''root'' \<in> node_id ` set (nodes s)" and "held_nodes i s \<noteq> []"
    and "\<forall>n \<in> set (held_nodes i s). isEditing n = True"
    and "\<forall>f. snd ev = Fetched f \<longrightarrow> hasLocationData (f_location f)"
  shows "i \<in> editingNodes (step ev s) \<and> ''root'' \<in> node_id ` set (nodes (step ev s)) \<and>
         held_nodes i (step ev s) = held_nodes i s"
proof (cases ev)
  case (Pair now e)
  show ?thesis
  proof (cases e)
    case (BeginEditNode j)
    show ?thesis
    proof (cases "j = i")
      case True
      with assms Pair BeginEditNode show ?thesis
        by (simp add: held_nodes_def filter_setEditingFlag_same flag_already)
    next
      case False
      with assms Pair BeginEditNode show ?thesis
        by (simp add: held_nodes_def filter_setEditingFlag_other)
    qed
  next
    case (EndEditNode j)
    with assms Pair show ?thesis
      by (auto simp: held_nodes_def filter_setEditingFlag_other)
  next
    case (Fetched f)
    with assms Pair show ?thesis
      using fetch_keeps_node[of i s f now] by simp
  qed (use assms Pair in \<open>simp_all add: held_nodes_def\<close>)
qed

lemma run_keeps_node:
  assumes "\<forall>ev \<in> set evs. snd ev \<noteq> EndEditNode i" and "i \<in> editingNodes s" and "i \<noteq> ''root''"
    and "''root'' \<in> node_id ` set (nodes s)" and "held_nodes i s \<noteq> []"
    and "\<forall>n \<in> set (held_nodes i s). isEditing n = True"
    and "\<forall>ev \<in> set evs. \<forall>f. snd ev = Fetched f \<longrightarrow> hasLocationData (f_location f)"
  shows "held_nodes i (run evs s) = held_nodes i s"
  using assms
proof (induction evs arbitrary: s)
  case Nil
  then show ?case by (simp add: run_def)
next
  case (Cons ev evs)
  from Cons.prems have "snd ev \<noteq> EndEditNode i"
    and "\<forall>f. snd ev = Fetched f \<longrightarrow> hasLocationData (f_location f)" by simp_all
  from step_keeps_node[OF this(1) Cons.prems(2-6) this(2)]
  have st: "i \<in> editingNodes (step ev s)" "''root'' \<in> node_id ` set (nodes (step ev s))"
    "held_nodes i (step ev s) = held_nodes i s" by auto
  have "held_nodes i (run evs (step ev s)) = held_nodes i (step ev s)"
    using Cons.prems st by (intro Cons.IH) auto
  with st(3) show ?case by (simp add: run_def)
qed

lemma step_keeps_edge:
  assumes "snd ev \<noteq> EndEditEdge i" and "i \<in> editingEdges s" and "held_edges i s \<noteq> []"
    and "\<forall>f. snd ev = Fetched f \<longrightarrow> hasLocationData (f_location f)"
  shows "i \<in> editingEdges (step ev s) \<and> held_edges i (step ev s) \<noteq> [] \<and>
         map edge_content (held_edges i (step ev s)) = map edge_content (held_edges i s)"
proof (cases ev)
  case (Pair now e)
  show ?thesis
  proof (cases e)
    case (Fetched f)
    with assms Pair show ?thesis using fetch_keeps_edge[of i s f now] by simp
  qed (use assms Pair in \<open>auto simp: held_edges_def\<close>)
qed

lemma run_keeps_edge:
  assumes "\<forall>ev \<in> set evs. snd ev \<noteq> EndEditEdge i" and "i \<in> editingEdges s"
    and "held_edges i s \<noteq> []"
    and "\<forall>ev \<in> set evs. \<forall>f. snd ev = Fetched f \<longrightarrow> hasLocationData (f_location f)"
  shows "map edge_content (held_edges i (run evs s)) = map edge_content (held_edges i s)"
  using assms
proof (induction evs arbitrary: s)
  case Nil
  then show ?case by (simp add: run_def)
next
  case (Cons ev evs)
  from Cons.prems have "snd ev \<noteq> EndEditEdge i"
    and "\<forall>f. snd ev = Fetched f \<longrightarrow> hasLocationData (f_location f)" by simp_all
  from step_keeps_edge[OF this(1) Cons.prems(2,3) this(2)]
  have st: "i \<in> editingEdges (step ev s)" "held_edges i (step ev s) \<noteq> []"
    "map edge_content (held_edges i (step ev s)) = map edge_content (held_edges i s)" by auto
  have "map edge_content (held_edges i (run evs (step ev s)))
      = map edge_content (held_edges i (step ev s))"
    using Cons.prems st by (intro Cons.IH) auto
  with st(3) show ?case by (simp add: run_def)
qed


text \<open>
  Claim C1, as the code has it. Take a store that holds the root and a node \<open>i\<close> other than
  the root, begin an edit of \<open>i\<close>, and let anything happen that is not the end of that edit:
  responses of the server with their reconciliations, save requests, timers, responses to
  writes, other edits; every location the server sends has a number, a name or a picture.
  The nodes with id \<open>i\<close> in the store are then still the local ones (with their editing
  flag set), none of them taken from a snapshot, and ending the edit only resets the flag.
  For an edge of the store, from the double click that begins its edit on, the edges with
  its id keep the local source, target, label, completion, type and dash pattern; their
  stroke colour, stroke width and animation are set again from the notes of each response.
\<close>

theorem edited_elements_survive_reconciliation:
  assumes "\<forall>ev \<in> set evs. snd ev \<noteq> EndEditNode i \<and> snd ev \<noteq> EndEditEdge (edge_id e)"
    and "\<forall>ev \<in> set evs. \<forall>f. snd ev = Fetched f \<longrightarrow> hasLocationData (f_location f)"
  shows
    "(''root'' \<in> node_id ` set (nodes s) \<and> i \<in> node_id ` set (nodes s) \<and> i \<noteq> ''root'' \<longrightarrow>
        held_nodes i (run evs (startEditingNode i s))
          = map (\<lambda>n. n\<lparr>isEditing := True\<rparr>) (held_nodes i s) \<and>
        held_nodes i (endEditingNode i now (run evs (startEditingNode i s)))
          = map (\<lambda>n. n\<lparr>isEditing := False\<rparr>) (held_nodes i s)) \<and>
     (e \<in> set (edges s) \<longrightarrow>
        map edge_content (held_edges (edge_id e) (run evs (onEdgeDoubleClick e s)))
          = map edge_content (held_edges (edge_id e) s) \<and>
        map edge_content
            (held_edges (edge_id e) (endEditingEdge (edge_id e) now (run evs (onEdgeDoubleClick e s))))
          = map edge_content (held_edges (edge_id e) s))"
proof (intro conjI impI)
  assume a: "''root'' \<in> node_id ` set (nodes s) \<and> i \<in> node_id ` set (nodes s) \<and> i \<noteq> ''root''"
  let ?s1 = "startEditingNode i s"
  have h1: "held_nodes i ?s1 = map (\<lambda>n. n\<lparr>isEditing := True\<rparr>) (held_nodes i s)"
    by (simp add: held_nodes_def filter_setEditingFlag_same)
  have "held_nodes i (run evs ?s1) = held_nodes i ?s1"
  proof (rule run_keeps_node)
    show "\<forall>ev \<in> set evs. snd ev \<noteq> EndEditNode i" using assms by simp
    show "i \<in> editingNodes ?s1" by simp
    show "i \<noteq> ''root''" using a by simp
    show "''root'' \<in> node_id ` set (nodes ?s1)" using a by simp
    show "held_nodes i ?s1 \<noteq> []" using a by (simp add: held_nodes_nonempty)
    show "\<forall>n \<in> set (held_nodes i ?s1). isEditing n = True" unfolding h1 by simp
    show "\<forall>ev \<in> set evs. \<forall>f. snd ev = Fetched f \<longrightarrow> hasLocationData (f_location f)"
      by (rule assms(2))
  qed
  with h1 show run: "held_nodes i (run evs ?s1) = map (\<lambda>n. n\<lparr>isEditing := True\<rparr>) (held_nodes i s)"
    by simp
  have "held_nodes i (endEditingNode i now (run evs ?s1))
      = map (\<lambda>n. n\<lparr>isEditing := False\<rparr>) (held_nodes i (run evs ?s1))"
    by (simp add: held_nodes_def filter_setEditingFlag_same)
  then show "held_nodes i (endEditingNode i now (run evs ?s1))
      = map (\<lambda>n. n\<lparr>isEditing := False\<rparr>) (held_nodes i s)"
    unfolding run by (simp add: comp_def)
next
  assume e: "e \<in> set (edges s)"
  let ?s1 = "onEdgeDoubleClick e s"
  have h1: "held_edges (edge_id e) ?s1 = held_edges (edge_id e) s" by (simp add: held_edges_def)
  have "map edge_content (held_edges (edge_id e) (run evs ?s1))
      = map edge_content (held_edges (edge_id e) ?s1)"
  proof (rule run_keeps_edge)
    show "\<forall>ev \<in> set evs. snd ev \<noteq> EndEditEdge (edge_id e)" using assms by simp
    show "edge_id e \<in> editingEdges ?s1" by simp
    show "held_edges (edge_id e) ?s1 \<noteq> []" using e by (auto simp: held_edges_def filter_empty_conv)
    show "\<forall>ev \<in> set evs. \<forall>f. snd ev = Fetched f \<longrightarrow> hasLocationData (f_location f)"
      by (rule assms(2))
  qed
  with h1 show run: "map edge_content (held_edges (edge_id e) (run evs ?s1))
      = map edge_content (held_edges (edge_id e) s)" by simp
  then show "map edge_content
      (held_edges (edge_id e) (endEditingEdge (edge_id e) now (run evs ?s1)))
      = map edge_content (held_edges (edge_id e) s)"
    by (simp add: held_edges_def)
qed

theorem edited_elements_survive_reconciliation_witness:
  "map node_text (held_nodes ''node-0''
      (run [(10, Fetched rival_fetch)] (startEditingNode ''node-0'' editing_page))) = [''mine''] \<and>
   map node_text (held_nodes ''node-0'' (endEditingNode ''node-0'' 20
      (run [(10, Fetched rival_fetch)] (startEditingNode ''node-0'' editing_page)))) = [''mine''] \<and>
   map edge_text (held_edges ''edge-root-node-0''
      (run [(10, Fetched rival_fetch)]
         (onEdgeDoubleClick ((new_edge ''root'' ''node-0'')\<lparr>edge_text := ''go''\<rparr>) editing_page)))
     = [''go''] \<and>
   map (stroke \<circ> style) (held_edges ''edge-root-node-0''
      (run [(10, Fetched rival_fetch)]
         (onEdgeDoubleClick ((new_edge ''root'' ''node-0'')\<lparr>edge_text := ''go''\<rparr>) editing_page)))
     = [Red]"
proof -
  let ?e = "(new_edge ''root'' ''node-0'')\<lparr>edge_text := ''go''\<rparr>"
  let ?evs = "[(10::int, Fetched rival_fetch)]"
  have evs: "\<forall>ev \<in> set ?evs. snd ev \<noteq> EndEditNode ''node-0'' \<and> snd ev \<noteq> EndEditEdge (edge_id ?e)"
    by simp
  have loc: "\<forall>ev \<in> set ?evs. \<forall>f. snd ev = Fetched f \<longrightarrow> hasLocationData (f_location f)"
    by (simp add: rival_fetch_def camelot_def hasLocationData_def)
  have n: "''root'' \<in> node_id ` set (nodes editing_page) \<and>
      ''node-0'' \<in> node_id ` set (nodes editing_page) \<and> ''node-0'' \<noteq> ''root''"
    by (simp add: editing_page_def root_node_def make_root_def outcome_def new_outcome_node_def)
  have e: "?e \<in> set (edges editing_page)" by (simp add: editing_page_def)
  have i: "edge_id ?e = ''edge-root-node-0''" by simp
  have hn: "map node_text (held_nodes ''node-0'' editing_page) = [''mine'']"
    by (simp add: held_nodes_def editing_page_def root_node_def make_root_def outcome_def
        new_outcome_node_def)
  have he: "map edge_content (held_edges ''edge-root-node-0'' editing_page)
      = [(''edge-root-node-0'', ''root'', ''node-0'', ''go'', False, ''default'', False)]"
    by (simp add: held_edges_def editing_page_def edge_content_def new_edge_def solid_gold_def)
  have red: "map (stroke \<circ> style) (held_edges ''edge-root-node-0''
      (run ?evs (onEdgeDoubleClick ?e editing_page))) = [Red]"
    by (simp add: run_def fetchData_response_def processGraphData_def rival_fetch_def
        rival_snapshot_def editing_page_def initial_def onEdgeDoubleClick_def location_deps_def
        notesEffect_def restyle_def mergeEdges_def held_edges_def new_edge_def Let_def)
  from edited_elements_survive_reconciliation[OF evs loc, of editing_page 20] n e
  have "held_nodes ''node-0'' (run ?evs (startEditingNode ''node-0'' editing_page))
          = map (\<lambda>n. n\<lparr>isEditing := True\<rparr>) (held_nodes ''node-0'' editing_page)"
    and "held_nodes ''node-0'' (endEditingNode ''node-0'' 20 (run ?evs (startEditingNode ''node-0'' editing_page)))
          = map (\<lambda>n. n\<lparr>isEditing := False\<rparr>) (held_nodes ''node-0'' editing_page)"
    and c: "map edge_content (held_edges (edge_id ?e) (run ?evs (onEdgeDoubleClick ?e editing_page)))
          = map edge_content (held_edges (edge_id ?e) editing_page)"
    by blast+
  moreover from c have "map edge_text (held_edges ''edge-root-node-0''
      (run ?evs (onEdgeDoubleClick ?e editing_page))) = [''go'']"
    unfolding i he by (auto simp: edge_content_def)
  ultimately show ?thesis using hn red by (simp add: comp_def)
qed

text \<open>
  The claim as written covers every store and every response. A store of at most one
  node is replaced wholesale, whatever the editing sets hold: a node under edit that is
  alone in the store is overwritten by the snapshot's version. And when the location of
  a response has lost its number, name and picture, the effect on the location empties
  the store, the node and the edge under edit included.
\<close>

theorem edited_elements_overwritten:
  "''node-0'' \<in> editingNodes (startEditingNode ''node-0'' lone_page) \<and>
   map node_text (held_nodes ''node-0'' (startEditingNode ''node-0'' lone_page)) = [''mine''] \<and>
   map node_text (held_nodes ''node-0''
      (run [(10, Fetched rival_fetch)] (startEditingNode ''node-0'' lone_page))) = [''theirs''] \<and>
   map node_id (nodes (startEditingNode ''node-0'' editing_page)) = [''root'', ''node-0''] \<and>
   ''node-0'' \<in> editingNodes (startEditingNode ''node-0'' editing_page) \<and>
   nodes (run [(10, Fetched cleared_fetch)] (startEditingNode ''node-0'' editing_page)) = [] \<and>
   edges (run [(10, Fetched cleared_fetch)]
      (onEdgeDoubleClick ((new_edge ''root'' ''node-0'')\<lparr>edge_text := ''go''\<rparr>) editing_page)) = []"
proof -
  have lone: "map node_text (held_nodes ''node-0''
      (run [(10, Fetched rival_fetch)] (startEditingNode ''node-0'' lone_page))) = [''theirs'']"
    by (simp add: run_def fetchData_response_def processGraphData_def rival_fetch_def
        rival_snapshot_def lone_page_def editing_page_def initial_def startEditingNode_def
        clearPending_def location_deps_def notesEffect_def held_nodes_def mergeNodes_def
        with_root_def outcome_def new_outcome_node_def decorate_node_def setEditingFlag_def
        Let_def)
  have before: "''node-0'' \<in> editingNodes (startEditingNode ''node-0'' lone_page) \<and>
      map node_text (held_nodes ''node-0'' (startEditingNode ''node-0'' lone_page)) = [''mine''] \<and>
      map node_id (nodes (startEditingNode ''node-0'' editing_page)) = [''root'', ''node-0''] \<and>
      ''node-0'' \<in> editingNodes (startEditingNode ''node-0'' editing_page)"
    by (simp add: lone_page_def editing_page_def initial_def startEditingNode_def
        clearPending_def held_nodes_def outcome_def new_outcome_node_def setEditingFlag_def
        root_node_def make_root_def Let_def)
  have cleared: "nodes (run [(10, Fetched cleared_fetch)]
        (startEditingNode ''node-0'' editing_page)) = []"
    "edges (run [(10, Fetched cleared_fetch)]
        (onEdgeDoubleClick ((new_edge ''root'' ''node-0'')\<lparr>edge_text := ''go''\<rparr>) editing_page)) = []"
    by (simp_all add: run_def fetchData_response_def processGraphData_def cleared_fetch_def
        rival_fetch_def rival_snapshot_def editing_page_def initial_def startEditingNode_def
        onEdgeDoubleClick_def clearPending_def location_deps_def camelot_def locationEffect_def
        hasLocationData_def notesEffect_def Let_def)
  from lone before cleared show ?thesis by simp
qed

section \<open>Failing saves\<close>

text \<open>
  Claim C3. A failed write sets the status to \<open>SaveError\<close>. When the attempt was
  immediate and fewer than three retries have been made, the retry is scheduled
  \<open>1000 * (retryCount + 1)\<close> ms later and the dirty flag is left as it is; otherwise the
  dirty flag is set and the only timer added is the one that resumes polling. An immediate
  save that fails twice and then succeeds, retried 1 s and 2 s after the failures, ends
  saved and not dirty, after three writes.
\<close>

theorem failed_save_retries:
  "saveStatus (saveGraph_response False immediate retryCount now s) = SaveError \<and>
   (immediate \<and> retryCount < 3 \<longrightarrow>
      timers (saveGraph_response False immediate retryCount now s) =
        timers s @
        [\<lparr>handle = nextTimer s, due = now + 1000 * (int retryCount + 1),
          act = SaveCall True (retryCount + 1)\<rparr>,
         \<lparr>handle = Suc (nextTimer s), due = now + 1000, act = ResumePolling\<rparr>] \<and>
      hasUnsavedChanges (saveGraph_response False immediate retryCount now s)
        = hasUnsavedChanges s) \<and>
   (\<not> (immediate \<and> retryCount < 3) \<longrightarrow>
      hasUnsavedChanges (saveGraph_response False immediate retryCount now s) \<and>
      timers (saveGraph_response False immediate retryCount now s) =
        timers s @ [\<lparr>handle = nextTimer s, due = now + 1000, act = ResumePolling\<rparr>]) \<and>
   saveStatus (run
      [(t, Request True), (t + d1, Response 0 False),
       (t + d1 + 1000, Fire 1), (t + d1 + 1000 + d2, Response 0 False),
       (t + d1 + 1000 + d2 + 2000, Fire 3), (t + d1 + 1000 + d2 + 2000 + d3, Response 0 True)]
      unsaved_page) = Saved \<and>
   hasUnsavedChanges (run
      [(t, Request True), (t + d1, Response 0 False),
       (t + d1 + 1000, Fire 1), (t + d1 + 1000 + d2, Response 0 False),
       (t + d1 + 1000 + d2 + 2000, Fire 3), (t + d1 + 1000 + d2 + 2000 + d3, Response 0 True)]
      unsaved_page) = False \<and>
   writes (run
      [(t, Request True), (t + d1, Response 0 False),
       (t + d1 + 1000, Fire 1), (t + d1 + 1000 + d2, Response 0 False),
       (t + d1 + 1000 + d2 + 2000, Fire 3), (t + d1 + 1000 + d2 + 2000 + d3, Response 0 True)]
      unsaved_page) = [t, t + d1 + 1000, t + d1 + 1000 + d2 + 2000]"
proof -
  let ?r = "saveGraph_response False immediate retryCount now s"
  have a: "saveStatus ?r = SaveError"
    by (simp add: saveGraph_response_def saveFinally_def saveFailed_def setTimeout_def Let_def)
  have b: "timers ?r = timers s @
        [\<lparr>handle = nextTimer s, due = now + 1000 * (int retryCount + 1),
          act = SaveCall True (retryCount + 1)\<rparr>,
         \<lparr>handle = Suc (nextTimer s), due = now + 1000, act = ResumePolling\<rparr>] \<and>
      hasUnsavedChanges ?r = hasUnsavedChanges s" if "immediate \<and> retryCount < 3"
    using that
    by (simp add: saveGraph_response_def saveFinally_def saveFailed_def setTimeout_def Let_def)
  have c: "hasUnsavedChanges ?r \<and>
      timers ?r = timers s @ [\<lparr>handle = nextTimer s, due = now + 1000, act = ResumePolling\<rparr>]"
    if "\<not> (immediate \<and> retryCount < 3)"
    using that
    by (simp add: saveGraph_response_def saveFinally_def saveFailed_def setTimeout_def Let_def)
  let ?s1 = "step (t + d1, Response 0 False) (step (t, Request True) unsaved_page)"
  have s1: "?s1 = initial\<lparr>saveStatus := SaveError, pollingPaused := True, writes := [t],
      timers := [\<lparr>handle = 1, due = t + d1 + 1000, act = SaveCall True 1\<rparr>,
                 \<lparr>handle = 2, due = t + d1 + 1000, act = ResumePolling\<rparr>],
      nextTimer := 3\<rparr>"
    by (simp add: unsaved_page_def initial_def saveGraph_def clearPending_def respond_def
        saveGraph_response_def saveFinally_def saveFailed_def setTimeout_def Let_def)
  let ?s2 = "step (t + d1 + 1000 + d2, Response 0 False) (step (t + d1 + 1000, Fire 1) ?s1)"
  have s2: "?s2 = initial\<lparr>saveStatus := SaveError, pollingPaused := True,
      writes := [t, t + d1 + 1000],
      timers := [\<lparr>handle = 2, due = t + d1 + 1000, act = ResumePolling\<rparr>,
                 \<lparr>handle = 3, due = t + d1 + 1000 + d2 + 2000, act = SaveCall True 2\<rparr>,
                 \<lparr>handle = 4, due = t + d1 + 1000 + d2 + 1000, act = ResumePolling\<rparr>],
      nextTimer := 5\<rparr>"
    unfolding s1
    by (simp add: initial_def fire_def run_action_def clearTimeout_def saveGraph_def
        clearPending_def respond_def saveGraph_response_def saveFinally_def saveFailed_def
        setTimeout_def Let_def)
  let ?s3 = "step (t + d1 + 1000 + d2 + 2000 + d3, Response 0 True)
      (step (t + d1 + 1000 + d2 + 2000, Fire 3) ?s2)"
  have s3: "saveStatus ?s3 = Saved \<and> hasUnsavedChanges ?s3 = False \<and>
      writes ?s3 = [t, t + d1 + 1000, t + d1 + 1000 + d2 + 2000]"
    unfolding s2
    by (simp add: initial_def fire_def run_action_def clearTimeout_def saveGraph_def
        clearPending_def respond_def saveGraph_response_def saveFinally_def saveSucceeded_def
        setTimeout_def Let_def)
  have "run [(t, Request True), (t + d1, Response 0 False),
       (t + d1 + 1000, Fire 1), (t + d1 + 1000 + d2, Response 0 False),
       (t + d1 + 1000 + d2 + 2000, Fire 3), (t + d1 + 1000 + d2 + 2000 + d3, Response 0 True)]
      unsaved_page = ?s3"
    by (simp only: run_def fold_simps id_apply comp_apply)
  with a b c s3 show ?thesis by presburger
qed

theorem failed_save_retries_witness:
  "saveStatus (saveGraph_response False True 3 100 initial) = SaveError \<and>
   hasUnsavedChanges (saveGraph_response False True 3 100 initial) \<and>
   timers (saveGraph_response False True 3 100 initial)
     = [\<lparr>handle = 1, due = 1100, act = ResumePolling\<rparr>] \<and>
   timers (saveGraph_response False True 1 100 initial)
     = [\<lparr>handle = 1, due = 2100, act = SaveCall True 2\<rparr>,
        \<lparr>handle = 2, due = 1100, act = ResumePolling\<rparr>] \<and>
   hasUnsavedChanges (saveGraph_response False False 0 100 initial) \<and>
   saveStatus (run
      [(10000, Request True), (10050, Response 0 False), (11050, Fire 1),
       (11130, Response 0 False), (13130, Fire 3), (13170, Response 0 True)]
      unsaved_page) = Saved \<and>
   \<not> hasUnsavedChanges (run
      [(10000, Request True), (10050, Response 0 False), (11050, Fire 1),
       (11130, Response 0 False), (13130, Fire 3), (13170, Response 0 True)]
      unsaved_page)"
  using failed_save_retries[of True 3 100 initial 10000 50 80 40]
    failed_save_retries[of True 1 100 initial 10000 50 80 40]
    failed_save_retries[of False 0 100 initial 10000 50 80 40]
  by (simp add: initial_def)

section \<open>The throttle\<close>

lemma throttle_inv_later: "throttle_inv now s \<Longrightarrow> now \<le> t \<Longrightarrow> throttle_inv t s"
  by (fastforce simp: throttle_inv_def)

lemma throttle_inv_clearTimeout: "throttle_inv t s \<Longrightarrow> throttle_inv t (clearTimeout h s)"
  by (simp add: throttle_inv_def clearTimeout_def)

lemma throttle_inv_clearPending: "throttle_inv t s \<Longrightarrow> throttle_inv t (clearPending s)"
  by (simp add: throttle_inv_def clearPending_def clearTimeout_def split: option.splits)

lemma throttle_inv_scheduleSave: "throttle_inv t s \<Longrightarrow> throttle_inv t (scheduleSave d t s)"
  by (simp add: throttle_inv_def scheduleSave_def setTimeout_def)

lemma clearPending_fields [simp]:
  "isSaving (clearPending s) = isSaving s"
  "lastSaveTime (clearPending s) = lastSaveTime s"
  "writes (clearPending s) = writes s"
  "saveQueue (clearPending s) = saveQueue s"
  "editingNodes (clearPending s) = editingNodes s"
  "editingEdges (clearPending s) = editingEdges s"
  by (simp_all add: clearPending_def clearTimeout_def split: option.splits)

lemma spaced_snoc: "spaced (ws @ [t]) \<longleftrightarrow> spaced ws \<and> (\<forall>w \<in> set ws. w + 1000 \<le> t)"
  by (auto simp: spaced_def sorted_wrt_append)

lemma throttle_inv_issue:
  assumes "throttle_inv t s" and "\<not> isSaving s" and "\<not> t - lastSaveTime s < 1000"
  shows "throttle_inv t (s\<lparr>isSaving := True, saveStatus := Saving, hasUnsavedChanges := False,
            pollingPaused := True, inflight := inflight s @ [(False, rc)],
            writes := writes s @ [t]\<rparr>)"
  using assms by (fastforce simp: throttle_inv_def spaced_snoc)

lemma throttle_inv_saveGraph:
  assumes "throttle_inv t s"
  shows "throttle_inv t (saveGraph False rc t s)"
proof (cases "isSaving s")
  case True
  with assms show ?thesis by (simp add: saveGraph_def throttle_inv_def)
next
  case False
  let ?s1 = "clearPending s"
  have inv1: "throttle_inv t ?s1" using assms by (rule throttle_inv_clearPending)
  show ?thesis
  proof (cases "editingNodes s \<noteq> {} \<or> editingEdges s \<noteq> {}")
    case True
    with False inv1 show ?thesis
      by (simp add: saveGraph_def Let_def throttle_inv_scheduleSave)
  next
    case idle: False
    show ?thesis
    proof (cases "t - lastSaveTime s < 1000")
      case True
      with False idle inv1 show ?thesis
        by (simp add: saveGraph_def Let_def throttle_inv_scheduleSave)
    next
      case late: False
      from throttle_inv_issue[OF inv1, of rc] False late
      show ?thesis using idle by (simp add: saveGraph_def Let_def)
    qed
  qed
qed

lemma throttle_inv_response:
  assumes "throttle_inv t s"
  shows "throttle_inv t (saveGraph_response True immediate rc t s)"
  using assms
  by (auto simp: throttle_inv_def saveGraph_response_def saveFinally_def saveSucceeded_def
      setTimeout_def Let_def split: list.splits)

lemma throttle_inv_respond:
  assumes "throttle_inv t s"
  shows "throttle_inv t (respond k True t s)"
proof (cases "k < length (inflight s)")
  case True
  have "throttle_inv t (s\<lparr>inflight := take k (inflight s) @ drop (Suc k) (inflight s)\<rparr>)"
    using assms by (simp add: throttle_inv_def)
  then show ?thesis using True by (simp add: respond_def throttle_inv_response)
next
  case False
  with assms show ?thesis by (simp add: respond_def)
qed

lemma throttle_inv_fire:
  assumes "throttle_inv t s"
  shows "throttle_inv t (fire h t s)"
proof (cases "find (\<lambda>x. handle x = h) (timers s)")
  case None
  with assms show ?thesis by (simp add: fire_def)
next
  case (Some x)
  then have x: "x \<in> set (timers s)" by (auto simp: find_Some_iff)
  have inv1: "throttle_inv t (clearTimeout h s)" using assms by (rule throttle_inv_clearTimeout)
  show ?thesis
  proof (cases "act x")
    case (SaveCall imm rc)
    with x assms have "\<not> imm" by (auto simp: throttle_inv_def)
    with Some SaveCall inv1 show ?thesis
      by (simp add: fire_def run_action_def throttle_inv_saveGraph assms)
  next
    case ResumePolling
    from inv1 have "throttle_inv t ((clearTimeout h s)\<lparr>pollingPaused := False\<rparr>)"
      by (simp add: throttle_inv_def)
    with Some ResumePolling show ?thesis by (simp add: fire_def run_action_def assms)
  next
    case FitView
    with Some inv1 show ?thesis by (simp add: fire_def run_action_def assms)
  qed
qed

lemma throttle_inv_startEditingNode: "throttle_inv t s \<Longrightarrow> throttle_inv t (startEditingNode i s)"
  using throttle_inv_clearPending[of t s] by (simp add: startEditingNode_def throttle_inv_def Let_def)

lemma throttle_inv_endEditingNode: "throttle_inv t s \<Longrightarrow> throttle_inv t (endEditingNode i t s)"
  by (simp add: endEditingNode_def throttle_inv_def setTimeout_def)

lemma throttle_inv_onEdgeDoubleClick: "throttle_inv t s \<Longrightarrow> throttle_inv t (onEdgeDoubleClick e s)"
  by (simp add: onEdgeDoubleClick_def throttle_inv_def)

lemma throttle_inv_endEditingEdge: "throttle_inv t s \<Longrightarrow> throttle_inv t (endEditingEdge i t s)"
proof -
  assume "throttle_inv t s"
  then have "throttle_inv t (s\<lparr>editingEdges := editingEdges s - {i}\<rparr>)"
    by (simp add: throttle_inv_def)
  then have "throttle_inv t (saveGraph False 0 t (s\<lparr>editingEdges := editingEdges s - {i}\<rparr>))"
    by (rule throttle_inv_saveGraph)
  then show ?thesis by (simp add: endEditingEdge_def throttle_inv_def)
qed

lemma throttle_inv_processGraphData: "throttle_inv t s \<Longrightarrow> throttle_inv t (processGraphData g b s)"
  by (simp add: processGraphData_def throttle_inv_def Let_def split: option.splits)

lemma throttle_inv_locationEffect: "throttle_inv t s \<Longrightarrow> throttle_inv t (locationEffect now s)"
  by (simp add: locationEffect_def throttle_inv_def setTimeout_def Let_def split: option.splits)

lemma throttle_inv_notesEffect: "throttle_inv t s \<Longrightarrow> throttle_inv t (notesEffect s)"
  by (simp add: notesEffect_def throttle_inv_def)

lemma throttle_inv_fetchData_response:
  assumes "throttle_inv t s"
  shows "throttle_inv t (fetchData_response f now s)"
proof -
  from assms have "throttle_inv t (s\<lparr>location := Some (f_location f), page_notes := f_notes f\<rparr>)"
    by (simp add: throttle_inv_def)
  then have "throttle_inv t (processGraphData (f_graph f) False
      (s\<lparr>location := Some (f_location f), page_notes := f_notes f\<rparr>))"
    by (rule throttle_inv_processGraphData)
  then show ?thesis
    by (simp add: fetchData_response_def Let_def throttle_inv_locationEffect
        throttle_inv_notesEffect)
qed

lemma throttle_inv_step:
  assumes "throttle_inv now s" and "now \<le> t" and "throttled_event ev"
  shows "throttle_inv t (step (t, ev) s)"
proof -
  from assms(1,2) have inv: "throttle_inv t s" by (rule throttle_inv_later)
  show ?thesis
  proof (cases ev)
    case (Request imm)
    with assms(3) inv show ?thesis by (simp add: throttled_event_def throttle_inv_saveGraph)
  next
    case (Fire h)
    with inv show ?thesis by (simp add: throttle_inv_fire)
  next
    case (Response k ok)
    with assms(3) inv show ?thesis by (simp add: throttled_event_def throttle_inv_respond)
  next
    case (BeginEditNode i)
    with inv show ?thesis by (simp add: throttle_inv_startEditingNode)
  next
    case (EndEditNode i)
    with inv show ?thesis by (simp add: throttle_inv_endEditingNode)
  next
    case (BeginEditEdge e)
    with inv show ?thesis by (simp add: throttle_inv_onEdgeDoubleClick)
  next
    case (EndEditEdge i)
    with inv show ?thesis by (simp add: throttle_inv_endEditingEdge)
  next
    case (Fetched f)
    with inv show ?thesis by (simp add: throttle_inv_fetchData_response)
  qed
qed

lemma throttle_inv_run:
  assumes "throttle_inv now s" and "sorted (map fst evs)" and "\<forall>ev \<in> set evs. now \<le> fst ev"
    and "\<forall>ev \<in> set evs. throttled_event (snd ev)"
  shows "\<exists>t. throttle_inv t (run evs s)"
  using assms
proof (induction evs arbitrary: now s)
  case Nil
  then show ?case by (auto simp: run_def)
next
  case (Cons ev evs)
  obtain t e where ev: "ev = (t, e)" by (cases ev)
  with Cons.prems have "throttle_inv t (step (t, e) s)"
    by (intro throttle_inv_step[of now]) auto
  moreover from Cons.prems ev have "sorted (map fst evs)" "\<forall>x \<in> set evs. t \<le> fst x"
    "\<forall>x \<in> set evs. throttled_event (snd x)" by auto
  ultimately have "\<exists>t'. throttle_inv t' (run evs (step (t, e) s))" by (rule Cons.IH)
  then show ?case by (simp add: run_def ev)
qed

lemma throttle_inv_initial: "throttle_inv now initial"
  by (simp add: throttle_inv_def initial_def spaced_def)

lemma spaced_window:
  assumes "spaced ws"
  shows "length (filter (\<lambda>w. T \<le> w \<and> w < T + 1000) ws) \<le> 1"
  using assms
proof (induction ws)
  case Nil
  then show ?case by simp
next
  case (Cons w ws)
  then have later: "\<forall>x \<in> set ws. w + 1000 \<le> x" and "spaced ws" by (auto simp: spaced_def)
  show ?case
  proof (cases "T \<le> w \<and> w < T + 1000")
    case True
    with later have "filter (\<lambda>w. T \<le> w \<and> w < T + 1000) ws = []"
      by (auto simp: filter_empty_conv)
    with True show ?thesis by simp
  next
    case False
    with Cons.IH \<open>spaced ws\<close> show ?thesis by auto
  qed
qed

lemma clearPending_nextTimer [simp]: "nextTimer (clearPending s) = nextTimer s"
  by (simp add: clearPending_def clearTimeout_def split: option.splits)

lemma run_from_initial:
  assumes "sorted (map fst evs)" and "\<forall>ev \<in> set evs. throttled_event (snd ev)"
  shows "\<exists>t. throttle_inv t (run evs initial)"
proof (cases evs)
  case Nil
  then show ?thesis using throttle_inv_initial by (auto simp: run_def)
next
  case (Cons ev rest)
  with assms(1) have "\<forall>x \<in> set evs. fst ev \<le> fst x" by auto
  with throttle_inv_initial[of "fst ev"] assms show ?thesis by (intro throttle_inv_run) auto
qed

text \<open>
  Claim C4, as the code has it. A non-immediate request that arrives less than 1000 ms
  after the last successful save issues no write; when no save is in flight and nothing
  is under edit it is rescheduled for the end of that second. Over any run from the
  mounted component in which every request is non-immediate and every write succeeds, any
  two writes are at least 1000 ms apart, so at most one falls in any window of one second.
\<close>

theorem non_immediate_saves_throttled:
  "(now - lastSaveTime s < 1000 \<longrightarrow>
      writes (saveGraph False rc now s) = writes s \<and>
      inflight (saveGraph False rc now s) = inflight s) \<and>
   (now - lastSaveTime s < 1000 \<and> \<not> isSaving s \<and> editingNodes s = {} \<and> editingEdges s = {} \<longrightarrow>
      timers (saveGraph False rc now s) =
        timers (clearPending s) @
        [\<lparr>handle = nextTimer s, due = lastSaveTime s + 1000, act = SaveCall False 0\<rparr>] \<and>
      saveTimeout (saveGraph False rc now s) = Some (nextTimer s)) \<and>
   (sorted (map fst evs) \<and> (\<forall>ev \<in> set evs. throttled_event (snd ev)) \<longrightarrow>
      spaced (writes (run evs initial)) \<and>
      (\<forall>T. length (filter (\<lambda>w. T \<le> w \<and> w < T + 1000) (writes (run evs initial))) \<le> 1))"
proof (intro conjI impI allI)
  assume "now - lastSaveTime s < 1000"
  then show "writes (saveGraph False rc now s) = writes s"
    and "inflight (saveGraph False rc now s) = inflight s"
    by (simp_all add: saveGraph_def scheduleSave_def setTimeout_def clearPending_def
        clearTimeout_def Let_def split: option.splits)
next
  assume a: "now - lastSaveTime s < 1000 \<and> \<not> isSaving s \<and> editingNodes s = {} \<and> editingEdges s = {}"
  then show "timers (saveGraph False rc now s) =
        timers (clearPending s) @
        [\<lparr>handle = nextTimer s, due = lastSaveTime s + 1000, act = SaveCall False 0\<rparr>]"
    by (simp add: saveGraph_def scheduleSave_def setTimeout_def Let_def)
  from a show "saveTimeout (saveGraph False rc now s) = Some (nextTimer s)"
    by (simp add: saveGraph_def scheduleSave_def setTimeout_def Let_def)
next
  assume a: "sorted (map fst evs) \<and> (\<forall>ev \<in> set evs. throttled_event (snd ev))"
  then obtain t where "throttle_inv t (run evs initial)" using run_from_initial by blast
  then show sp: "spaced (writes (run evs initial))" by (simp add: throttle_inv_def)
  fix T
  from sp show "length (filter (\<lambda>w. T \<le> w \<and> w < T + 1000) (writes (run evs initial))) \<le> 1"
    by (rule spaced_window)
qed

lemma throttled_run_4:
  "writes (run [(10000, Request False), (10050, Response 0 True), (10200, Request False),
      (10500, Request False)] initial) = [10000]"
  by (simp add: run_def initial_def saveGraph_def clearPending_def clearTimeout_def
      scheduleSave_def setTimeout_def respond_def saveGraph_response_def saveFinally_def
      saveSucceeded_def Let_def)

lemma throttled_run_5:
  "writes (run [(10000, Request False), (10050, Response 0 True), (10200, Request False),
      (10500, Request False), (11050, Fire 3)] initial) = [10000, 11050]"
  by (simp add: run_def initial_def saveGraph_def clearPending_def clearTimeout_def
      scheduleSave_def setTimeout_def respond_def saveGraph_response_def saveFinally_def
      saveSucceeded_def fire_def run_action_def Let_def)

theorem non_immediate_saves_throttled_witness:
  "writes (run [(10000, Request False), (10050, Response 0 True), (10200, Request False),
      (10500, Request False)] initial) = [10000] \<and>
   writes (run [(10000, Request False), (10050, Response 0 True), (10200, Request False),
      (10500, Request False), (11050, Fire 3)] initial) = [10000, 11050] \<and>
   spaced (writes (run [(10000, Request False), (10050, Response 0 True), (10200, Request False),
      (10500, Request False), (11050, Fire 3)] initial)) \<and>
   length (filter (\<lambda>w. 10000 \<le> w \<and> w < 10000 + 1000)
     (writes (run [(10000, Request False), (10050, Response 0 True), (10200, Request False),
      (10500, Request False), (11050, Fire 3)] initial))) \<le> 1 \<and>
   writes (saveGraph False 0 10200 (initial\<lparr>lastSaveTime := 10050\<rparr>)) = [] \<and>
   timers (saveGraph False 0 10200 (initial\<lparr>lastSaveTime := 10050\<rparr>))
     = [\<lparr>handle = 1, due = 11050, act = SaveCall False 0\<rparr>]"
proof -
  let ?evs = "[(10000::int, Request False), (10050, Response 0 True), (10200, Request False),
      (10500, Request False), (11050, Fire 3)]"
  have h: "sorted (map fst ?evs) \<and> (\<forall>ev \<in> set ?evs. throttled_event (snd ev))"
    by (simp add: throttled_event_def)
  have g: "(10200::int) - lastSaveTime (initial\<lparr>lastSaveTime := 10050\<rparr>) < 1000 \<and>
      \<not> isSaving (initial\<lparr>lastSaveTime := 10050\<rparr>) \<and>
      editingNodes (initial\<lparr>lastSaveTime := 10050\<rparr>) = {} \<and>
      editingEdges (initial\<lparr>lastSaveTime := 10050\<rparr>) = {}"
    by (simp add: initial_def)
  from non_immediate_saves_throttled[of 10200 "initial\<lparr>lastSaveTime := 10050\<rparr>" 0 ?evs] h g
  have "spaced (writes (run ?evs initial))"
    and "length (filter (\<lambda>w. 10000 \<le> w \<and> w < 10000 + 1000) (writes (run ?evs initial))) \<le> 1"
    and "writes (saveGraph False 0 10200 (initial\<lparr>lastSaveTime := 10050\<rparr>))
          = writes (initial\<lparr>lastSaveTime := 10050\<rparr>)"
    and "timers (saveGraph False 0 10200 (initial\<lparr>lastSaveTime := 10050\<rparr>)) =
        timers (clearPending (initial\<lparr>lastSaveTime := 10050\<rparr>)) @
        [\<lparr>handle = nextTimer (initial\<lparr>lastSaveTime := 10050\<rparr>),
          due = lastSaveTime (initial\<lparr>lastSaveTime := 10050\<rparr>) + 1000, act = SaveCall False 0\<rparr>]"
    by blast+
  then show ?thesis using throttled_run_4 throttled_run_5
    by (simp add: initial_def clearPending_def)
qed

text \<open>
  The claim as written bounds the saves of the scenario without asking that they succeed.
  The throttle counts from the last successful save only: when the writes fail, the
  requests at 0, 200 and 500 ms (here after time 10000) each issue a write.
\<close>

theorem failed_saves_not_throttled:
  "writes (run [(10000, Request False), (10050, Response 0 False), (10200, Request False),
      (10250, Response 0 False), (10500, Request False)] initial) = [10000, 10200, 10500]"
  by (simp add: run_def initial_def saveGraph_def clearPending_def clearTimeout_def
      scheduleSave_def setTimeout_def respond_def saveGraph_response_def saveFinally_def
      saveFailed_def Let_def)

end
